theory Spec2Isabelle
  imports Main "HOL-Library.Sublist" "HOL-Library.Char_ord" "HOL-Library.List_Lexorder"
begin

section \<open>The session data engine of ScheduleApp.jsx\<close>

text \<open>
  The component receives its sessions from \<^verbatim>\<open>response.json()\<close>, so a session is a JSON value.
  An object is kept as the list of its own properties in enumeration order, which is the
  order \<^verbatim>\<open>JSON.stringify\<close> and object spread follow. Numbers are the integer-valued ones
  (identifiers, epoch timestamps); strings are ASCII text. The JavaScript value
  \<^verbatim>\<open>undefined\<close> is \<open>None\<close> of type \<open>jsval\<close>; a thrown \<^verbatim>\<open>TypeError\<close> is the left
  injection of a sum.
\<close>

datatype json =
    JNull
  | JBool bool
  | JNum int
  | JStr string
  | JArr "json list"
  | JObj "(string \<times> json) list"

type_synonym jsval = "json option"

datatype error = TypeError | SyntaxError

subsection \<open>JavaScript primitives used by the component\<close>

definition and_then :: "error + 'a \<Rightarrow> ('a \<Rightarrow> error + 'b) \<Rightarrow> error + 'b" where
  "and_then r f = (case r of Inl e \<Rightarrow> Inl e | Inr x \<Rightarrow> f x)"

text \<open>\<^verbatim>\<open>xs.map(f)\<close> where the callback may throw: the first exception ends the loop.\<close>

fun map_r :: "('a \<Rightarrow> error + 'b) \<Rightarrow> 'a list \<Rightarrow> error + 'b list" where
  "map_r f [] = Inr []"
| "map_r f (x # xs) = and_then (f x) (\<lambda>y. and_then (map_r f xs) (\<lambda>ys. Inr (y # ys)))"

text \<open>\<^verbatim>\<open>xs.filter(p)\<close> where the callback may throw.\<close>

fun filter_r :: "('a \<Rightarrow> error + bool) \<Rightarrow> 'a list \<Rightarrow> error + 'a list" where
  "filter_r p [] = Inr []"
| "filter_r p (x # xs) =
     and_then (p x) (\<lambda>b. and_then (filter_r p xs) (\<lambda>ys. Inr (if b then x # ys else ys)))"

text \<open>\<^verbatim>\<open>xs.find(p)\<close>: the first element the callback accepts, \<^verbatim>\<open>undefined\<close> when there is none.\<close>

fun find_r :: "(json \<Rightarrow> error + bool) \<Rightarrow> json list \<Rightarrow> error + jsval" where
  "find_r p [] = Inr None"
| "find_r p (x # xs) = and_then (p x) (\<lambda>b. if b then Inr (Some x) else find_r p xs)"

text \<open>
  \<^verbatim>\<open>v.k\<close> for the property names the component reads (\<^verbatim>\<open>id\<close>, \<^verbatim>\<open>title\<close>,
  \<^verbatim>\<open>description\<close>, \<^verbatim>\<open>track\<close>, \<^verbatim>\<open>speakers\<close>, \<^verbatim>\<open>name\<close>, \<^verbatim>\<open>slot_start\<close>, \<^verbatim>\<open>slot_end\<close>,
  \<^verbatim>\<open>slot_room\<close>, \<^verbatim>\<open>searchText\<close>): reading from \<^verbatim>\<open>null\<close> throws, an object yields its own
  property, and booleans, numbers, strings and arrays have no property of these names.
\<close>

fun get_prop :: "json \<Rightarrow> string \<Rightarrow> error + jsval" where
  "get_prop JNull k = Inl TypeError"
| "get_prop (JObj kvs) k = Inr (map_of kvs k)"
| "get_prop v k = Inr None"

text \<open>\<^verbatim>\<open>v?.k\<close>: \<^verbatim>\<open>undefined\<close> when the receiver is \<^verbatim>\<open>null\<close> or \<^verbatim>\<open>undefined\<close>.\<close>

fun opt_prop :: "jsval \<Rightarrow> string \<Rightarrow> jsval" where
  "opt_prop None k = None"
| "opt_prop (Some JNull) k = None"
| "opt_prop (Some (JObj kvs)) k = map_of kvs k"
| "opt_prop (Some v) k = None"

text \<open>Truthiness, as \<^verbatim>\<open>||\<close> and \<^verbatim>\<open>!\<close> test it.\<close>

fun truthy :: "jsval \<Rightarrow> bool" where
  "truthy None = False"
| "truthy (Some JNull) = False"
| "truthy (Some (JBool b)) = b"
| "truthy (Some (JNum n)) = (n \<noteq> 0)"
| "truthy (Some (JStr s)) = (s \<noteq> [])"
| "truthy (Some (JArr xs)) = True"
| "truthy (Some (JObj kvs)) = True"

definition or_else :: "jsval \<Rightarrow> json \<Rightarrow> jsval" where
  "or_else v d = (if truthy v then v else Some d)"

text \<open>
  Strict equality \<^verbatim>\<open>===\<close> (and SameValueZero of \<^verbatim>\<open>Array.prototype.includes\<close>, which agrees
  with it in the absence of NaN): primitives, \<^verbatim>\<open>undefined\<close> among them, are compared by
  value. Arrays and objects are compared by reference, which the model does not track: it
  answers false, as is right for values of different parses and for string constants.
  Identifiers and room names are primitive values.
\<close>

fun is_primitive :: "jsval \<Rightarrow> bool" where
  "is_primitive (Some (JArr xs)) = False"
| "is_primitive (Some (JObj kvs)) = False"
| "is_primitive v = True"

definition strict_eq :: "jsval \<Rightarrow> jsval \<Rightarrow> bool" where
  "strict_eq a b = (is_primitive a \<and> a = b)"

definition toLowerChar :: "char \<Rightarrow> char" where
  "toLowerChar c =
     (let n = (of_char c :: nat) in if 65 \<le> n \<and> n \<le> 90 then char_of (n + 32) else c)"

text \<open>\<^verbatim>\<open>v.toLowerCase()\<close>: only a string has the method.\<close>

fun toLowerCase :: "jsval \<Rightarrow> error + string" where
  "toLowerCase (Some (JStr s)) = Inr (map toLowerChar s)"
| "toLowerCase v = Inl TypeError"

text \<open>\<^verbatim>\<open>xs.join(sep)\<close> on an array of strings.\<close>

fun join :: "string \<Rightarrow> string list \<Rightarrow> string" where
  "join sep [] = []"
| "join sep [x] = x"
| "join sep (x # y # ys) = x @ sep @ join sep (y # ys)"

fun starts_with :: "string \<Rightarrow> string \<Rightarrow> bool" where
  "starts_with [] text = True"
| "starts_with (p # ps) [] = False"
| "starts_with (p # ps) (c # cs) = (p = c \<and> starts_with ps cs)"

text \<open>\<^verbatim>\<open>text.includes(pat)\<close> on strings: \<open>pat\<close> occurs in \<open>text\<close> as a contiguous substring.\<close>

fun str_includes :: "string \<Rightarrow> string \<Rightarrow> bool" where
  "str_includes [] pat = (pat = [])"
| "str_includes (c # cs) pat = (starts_with pat (c # cs) \<or> str_includes cs pat)"

text \<open>
  \<^verbatim>\<open>v.includes(pat)\<close> with a string argument: substring search on a string, membership on
  an array; nothing else has the method.
\<close>

fun js_includes :: "jsval \<Rightarrow> string \<Rightarrow> error + bool" where
  "js_includes (Some (JStr text)) pat = Inr (str_includes text pat)"
| "js_includes (Some (JArr xs)) pat = Inr (list_ex (\<lambda>x. strict_eq (Some x) (Some (JStr pat))) xs)"
| "js_includes v pat = Inl TypeError"

subsection \<open>createSearchIndex\<close>

text \<open>The callback of \<^verbatim>\<open>(session.speakers || []).map(s => s.name.toLowerCase())\<close>.\<close>

definition speaker_name :: "json \<Rightarrow> error + string" where
  "speaker_name s = and_then (get_prop s ''name'') toLowerCase"

text \<open>\<^verbatim>\<open>v.map(f)\<close>: only an array has the method.\<close>

fun speaker_names :: "jsval \<Rightarrow> error + string list" where
  "speaker_names (Some (JArr xs)) = map_r speaker_name xs"
| "speaker_names v = Inl TypeError"

definition searchText_of :: "json \<Rightarrow> error + string" where
  "searchText_of session =
     and_then (and_then (get_prop session ''title'') toLowerCase) (\<lambda>title.
     and_then (and_then (get_prop session ''description'') toLowerCase) (\<lambda>description.
     and_then (and_then (get_prop session ''track'') (\<lambda>t. toLowerCase (or_else t (JStr '''')))) (\<lambda>track.
     and_then (and_then (get_prop session ''speakers'') (\<lambda>sp. speaker_names (or_else sp (JArr [])))) (\<lambda>names.
       Inr (title @ '' '' @ description @ '' '' @ track @ '' '' @ join '' '' names)))))"

text \<open>Assigning a property: an existing key keeps its place, a new key goes last.\<close>

fun obj_set :: "(string \<times> json) list \<Rightarrow> string \<Rightarrow> json \<Rightarrow> (string \<times> json) list" where
  "obj_set [] k v = [(k, v)]"
| "obj_set ((k', v') # kvs) k v = (if k' = k then (k, v) # kvs else (k', v') # obj_set kvs k v)"

text \<open>
  The own properties \<^verbatim>\<open>{...session}\<close> copies. Only an object reaches the end of the
  literal: for every other value the \<^verbatim>\<open>title\<close> expression has thrown.
\<close>

fun own_props :: "json \<Rightarrow> (string \<times> json) list" where
  "own_props (JObj kvs) = kvs"
| "own_props v = []"

definition index_session :: "json \<Rightarrow> error + json" where
  "index_session session =
     and_then (searchText_of session) (\<lambda>text.
       Inr (JObj (obj_set (own_props session) ''searchText'' (JStr text))))"

definition createSearchIndex :: "json list \<Rightarrow> error + json list" where
  "createSearchIndex sessions_in = map_r index_session sessions_in"

subsection \<open>filterSessions\<close>

text \<open>
  The calendar is the browser's: \<open>date v\<close> is the time value of \<^verbatim>\<open>new Date(v)\<close> in
  milliseconds, \<open>None\<close> for an invalid date (NaN), and \<open>label t\<close> is
  \<^verbatim>\<open>toLocaleDateString('en-US', {weekday, month, day})\<close> of that date in the viewer's time
  zone. Both are parameters of the model. Neither throws on a JSON value.
\<close>

type_synonym date_fn = "jsval \<Rightarrow> int option"
type_synonym label_fn = "int option \<Rightarrow> string"

definition day_of :: "date_fn \<Rightarrow> label_fn \<Rightarrow> json \<Rightarrow> error + string" where
  "day_of date label session = and_then (get_prop session ''slot_start'') (\<lambda>v. Inr (label (date v)))"

definition search_stage :: "string \<Rightarrow> json list \<Rightarrow> error + json list" where
  "search_stage searchTerm filtered =
     (if searchTerm \<noteq> [] then
        filter_r (\<lambda>session. and_then (get_prop session ''searchText'')
                   (\<lambda>t. js_includes t (map toLowerChar searchTerm))) filtered
      else Inr filtered)"

definition day_stage :: "date_fn \<Rightarrow> label_fn \<Rightarrow> string \<Rightarrow> json list \<Rightarrow> error + json list" where
  "day_stage date label selectedDay filtered =
     (if selectedDay \<noteq> ''all'' then
        filter_r (\<lambda>session. and_then (day_of date label session) (\<lambda>d. Inr (d = selectedDay)))
          filtered
      else Inr filtered)"

text \<open>
  \<^verbatim>\<open>selectedTrack\<close> holds the string chosen in the select, or \<^verbatim>\<open>session.track\<close> from the
  track button of a card, which is rendered only under \<^verbatim>\<open>session.track &&\<close>: a non-empty
  string for a session of the Session shape.
\<close>

definition track_stage :: "string \<Rightarrow> json list \<Rightarrow> error + json list" where
  "track_stage selectedTrack filtered =
     (if selectedTrack \<noteq> ''all'' then
        filter_r (\<lambda>session. and_then (get_prop session ''track'')
                   (\<lambda>t. Inr (strict_eq t (Some (JStr selectedTrack))))) filtered
      else Inr filtered)"

text \<open>
  \<^verbatim>\<open>selectedRoom\<close> holds the string chosen in the select, or what \<^verbatim>\<open>handleRoomClick\<close>
  received from a card, \<^verbatim>\<open>session.slot_room?.name\<close>: \<^verbatim>\<open>undefined\<close> for a session without a
  room. So it is a \<open>jsval\<close>, and \<^verbatim>\<open>selectedRoom !== 'all'\<close> holds of \<^verbatim>\<open>undefined\<close>.
\<close>

definition room_stage :: "jsval \<Rightarrow> json list \<Rightarrow> error + json list" where
  "room_stage selectedRoom filtered =
     (if \<not> strict_eq selectedRoom (Some (JStr ''all'')) then
        filter_r (\<lambda>session. and_then (get_prop session ''slot_room'')
                   (\<lambda>r. Inr (strict_eq (opt_prop r ''name'') selectedRoom))) filtered
      else Inr filtered)"

text \<open>
  The value \<^verbatim>\<open>filterSessions\<close> hands to \<^verbatim>\<open>setFilteredSessions\<close>, as a function of the
  callback's dependencies.
\<close>

definition filterSessions ::
  "date_fn \<Rightarrow> label_fn \<Rightarrow> string \<Rightarrow> string \<Rightarrow> string \<Rightarrow> jsval \<Rightarrow> json list \<Rightarrow> error + json list" where
  "filterSessions date label searchTerm selectedDay selectedTrack selectedRoom searchIndex_in =
     and_then (search_stage searchTerm searchIndex_in) (\<lambda>f1.
     and_then (day_stage date label selectedDay f1) (\<lambda>f2.
     and_then (track_stage selectedTrack f2) (\<lambda>f3.
       room_stage selectedRoom f3)))"

subsection \<open>JSON.stringify\<close>

definition digit_char :: "nat \<Rightarrow> char" where
  "digit_char n = char_of (48 + n)"

fun digits :: "nat \<Rightarrow> string" where
  "digits n = (if n < 10 then [digit_char n] else digits (n div 10) @ [digit_char (n mod 10)])"

declare digits.simps [simp del]

definition show_int :: "int \<Rightarrow> string" where
  "show_int i = (if i < 0 then CHR ''-'' # digits (nat (- i)) else digits (nat i))"

definition hex_digit :: "nat \<Rightarrow> char" where
  "hex_digit n = (if n < 10 then char_of (48 + n) else char_of (87 + n))"

text \<open>
  QuoteJSONString: the quote and the backslash are escaped, the control characters get
  their short escape or \<^verbatim>\<open>\u00XX\<close>, every other character stands for itself.
\<close>

definition quote_char :: "char \<Rightarrow> string" where
  "quote_char c =
     (if c = CHR 0x22 then [CHR 0x5C, CHR 0x22]
      else if c = CHR 0x5C then [CHR 0x5C, CHR 0x5C]
      else if c = CHR 0x08 then [CHR 0x5C, CHR ''b'']
      else if c = CHR 0x0C then [CHR 0x5C, CHR ''f'']
      else if c = CHR 0x0A then [CHR 0x5C, CHR ''n'']
      else if c = CHR 0x0D then [CHR 0x5C, CHR ''r'']
      else if c = CHR 0x09 then [CHR 0x5C, CHR ''t'']
      else if (of_char c :: nat) < 32 then
        [CHR 0x5C, CHR ''u'', CHR ''0'', CHR ''0'',
         hex_digit ((of_char c :: nat) div 16), hex_digit ((of_char c :: nat) mod 16)]
      else [c])"

definition quote :: "string \<Rightarrow> string" where
  "quote s = CHR 0x22 # concat (map quote_char s) @ [CHR 0x22]"

fun stringify :: "json \<Rightarrow> string" where
  "stringify JNull = ''null''"
| "stringify (JBool b) = (if b then ''true'' else ''false'')"
| "stringify (JNum n) = show_int n"
| "stringify (JStr s) = quote s"
| "stringify (JArr xs) = ''['' @ join '','' (map stringify xs) @ '']''"
| "stringify (JObj kvs) =
     ''{'' @ join '','' (map (\<lambda>kv. quote (fst kv) @ '':'' @ stringify (snd kv)) kvs) @ ''}''"

subsection \<open>The change detection of fetchData\<close>

record update_stats =
  added :: nat
  modified :: nat
  unchanged :: nat

datatype change = Added | Modified | Unchanged

text \<open>\<^verbatim>\<open>xs.forEach(f)\<close> where the callback updates local variables and may throw.\<close>

fun for_each_r :: "('s \<Rightarrow> 'a \<Rightarrow> error + 's) \<Rightarrow> 's \<Rightarrow> 'a list \<Rightarrow> error + 's" where
  "for_each_r f s [] = Inr s"
| "for_each_r f s (x # xs) = and_then (f s x) (\<lambda>s'. for_each_r f s' xs)"

text \<open>The callback of \<^verbatim>\<open>sessions.find(s => s.id === session.id)\<close>.\<close>

definition same_id :: "json \<Rightarrow> json \<Rightarrow> error + bool" where
  "same_id session s =
     and_then (get_prop s ''id'') (\<lambda>a. and_then (get_prop session ''id'') (\<lambda>b. Inr (strict_eq a b)))"

text \<open>The branch the \<^verbatim>\<open>forEach\<close> callback takes for one new session.\<close>

definition classify :: "json list \<Rightarrow> json \<Rightarrow> error + change" where
  "classify old session =
     and_then (find_r (same_id session) old) (\<lambda>existingSession.
       case existingSession of
         None \<Rightarrow> Inr Added
       | Some e \<Rightarrow>
           if \<not> truthy (Some e) then Inr Added
           else if stringify e \<noteq> stringify session then Inr Modified
           else Inr Unchanged)"

definition count_change :: "update_stats \<Rightarrow> change \<Rightarrow> update_stats" where
  "count_change stats c =
     (case c of
        Added \<Rightarrow> stats\<lparr>added := added stats + 1\<rparr>
      | Modified \<Rightarrow> stats\<lparr>modified := modified stats + 1\<rparr>
      | Unchanged \<Rightarrow> stats\<lparr>unchanged := unchanged stats + 1\<rparr>)"

definition diff_step :: "json list \<Rightarrow> update_stats \<Rightarrow> json \<Rightarrow> error + update_stats" where
  "diff_step old stats session = and_then (classify old session) (\<lambda>c. Inr (count_change stats c))"

text \<open>
  The body of \<^verbatim>\<open>if (sessions.length > 0)\<close> up to the two setters: the set of existing ids
  is built (and never read), then every new session is classified.
\<close>

definition diff_sessions :: "json list \<Rightarrow> json list \<Rightarrow> error + update_stats" where
  "diff_sessions old newSessions =
     and_then (map_r (\<lambda>s. get_prop s ''id'') old) (\<lambda>existingIds.
       for_each_r (diff_step old) \<lparr>added = 0, modified = 0, unchanged = 0\<rparr> newSessions)"

subsection \<open>toggleBookmark\<close>

definition array_includes :: "jsval list \<Rightarrow> jsval \<Rightarrow> bool" where
  "array_includes xs v = list_ex (\<lambda>x. strict_eq x v) xs"

definition toggleBookmark :: "jsval \<Rightarrow> jsval list \<Rightarrow> jsval list" where
  "toggleBookmark sessionId prev =
     (if array_includes prev sessionId then filter (\<lambda>i. \<not> strict_eq i sessionId) prev
      else prev @ [sessionId])"

subsection \<open>groupedSessions\<close>

text \<open>\<^verbatim>\<open>startTime <= currentTime && endTime >= currentTime\<close>; a comparison with NaN is false.\<close>

definition isCurrentSession :: "date_fn \<Rightarrow> int \<Rightarrow> jsval \<Rightarrow> jsval \<Rightarrow> bool" where
  "isCurrentSession date currentTime slot_start slot_end =
     (case (date slot_start, date slot_end) of
        (Some startTime, Some endTime) \<Rightarrow> startTime \<le> currentTime \<and> endTime \<ge> currentTime
      | _ \<Rightarrow> False)"

text \<open>\<^verbatim>\<open>if (!grouped[day]) grouped[day] = []; grouped[day].push(session)\<close>.\<close>

fun push_group :: "(string \<times> json list) list \<Rightarrow> string \<Rightarrow> json \<Rightarrow> (string \<times> json list) list" where
  "push_group [] day session = [(day, [session])]"
| "push_group ((d, xs) # g) day session =
     (if d = day then (d, xs @ [session]) # g else (d, xs) # push_group g day session)"

definition group_step ::
  "date_fn \<Rightarrow> label_fn \<Rightarrow> int \<Rightarrow> (string \<times> json list) list \<times> bool \<Rightarrow> json
     \<Rightarrow> error + (string \<times> json list) list \<times> bool" where
  "group_step date label currentTime acc session =
     and_then (get_prop session ''slot_start'') (\<lambda>slot_start.
     and_then (get_prop session ''slot_end'') (\<lambda>slot_end.
       Inr (push_group (fst acc) (label (date slot_start)) session,
            snd acc \<or> isCurrentSession date currentTime slot_start slot_end)))"

text \<open>
  The comparator \<^verbatim>\<open>(a, b) => new Date(a.slot_start) - new Date(b.slot_start)\<close>. Its arguments
  are elements of a bucket, which have passed \<^verbatim>\<open>session.slot_start\<close> in the loop above, so
  the property read cannot throw. A NaN result counts as 0 for the sort.
\<close>

definition compare_start :: "date_fn \<Rightarrow> json \<Rightarrow> json \<Rightarrow> int" where
  "compare_start date a b =
     (case (date (opt_prop (Some a) ''slot_start''), date (opt_prop (Some b) ''slot_start'')) of
        (Some x, Some y) \<Rightarrow> x - y
      | _ \<Rightarrow> 0)"

text \<open>
  \<^verbatim>\<open>Array.prototype.sort\<close> with a comparator: ascending and stable when the comparator is a
  consistent order. The model is the stable insertion sort; where the comparator is not
  consistent (an invalid date among the keys) ECMAScript leaves the order to the engine.
\<close>

fun insort_by :: "('a \<Rightarrow> 'a \<Rightarrow> int) \<Rightarrow> 'a \<Rightarrow> 'a list \<Rightarrow> 'a list" where
  "insort_by cmp x [] = [x]"
| "insort_by cmp x (y # ys) = (if cmp x y \<le> 0 then x # y # ys else y # insort_by cmp x ys)"

definition array_sort :: "('a \<Rightarrow> 'a \<Rightarrow> int) \<Rightarrow> 'a list \<Rightarrow> 'a list" where
  "array_sort cmp xs = foldr (insort_by cmp) xs []"

text \<open>
  The value of the \<^verbatim>\<open>useMemo\<close>, as a function of its dependencies and of the clock read
  at its start. \<^verbatim>\<open>grouped\<close> is the list of its day keys in insertion order.
\<close>

definition groupedSessions ::
  "date_fn \<Rightarrow> label_fn \<Rightarrow> int \<Rightarrow> string \<Rightarrow> json list \<Rightarrow> json list \<Rightarrow> jsval list
     \<Rightarrow> error + (string \<times> json list) list \<times> bool" where
  "groupedSessions date label currentTime view_in filtered all_sessions bookmarked =
     and_then
       (if view_in = ''schedule'' then Inr filtered
        else filter_r (\<lambda>session. and_then (get_prop session ''id'')
                        (\<lambda>i. Inr (array_includes bookmarked i))) all_sessions)
       (\<lambda>sessionsToGroup.
     and_then (for_each_r (group_step date label currentTime) ([], False) sessionsToGroup)
       (\<lambda>acc.
         Inr (map (\<lambda>g. (fst g, array_sort (compare_start date) (snd g))) (fst acc), snd acc)))"

subsection \<open>fetchData on the component state\<close>

record app_state =
  sessions :: "json list"
  isLoading :: bool
  isRefreshing :: bool
  filteredSessions :: "json list"
  searchIndex :: "json list"
  bookmarkedSessions :: "jsval list"
  searchTerm :: string
  selectedDay :: string
  selectedTrack :: string
  selectedRoom :: jsval
  view :: string
  isUpdateDialogOpen :: bool
  updateStats :: update_stats

text \<open>
  What the two awaits deliver: \<^verbatim>\<open>fetch\<close> rejects, \<^verbatim>\<open>response.json()\<close> rejects, or the
  payload's \<^verbatim>\<open>data.items\<close> array arrives.
\<close>

datatype response = NetworkFailure | ParseFailure | Payload "json list"

text \<open>The \<^verbatim>\<open>try\<close> block: the state updates it has queued when it ends, or the exception.\<close>

definition fetch_try :: "app_state \<Rightarrow> response \<Rightarrow> error + app_state" where
  "fetch_try st resp =
     (case resp of
        NetworkFailure \<Rightarrow> Inl TypeError
      | ParseFailure \<Rightarrow> Inl SyntaxError
      | Payload newSessions \<Rightarrow>
          and_then
            (if length (sessions st) > 0 then
               and_then (diff_sessions (sessions st) newSessions) (\<lambda>stats.
                 Inr (st\<lparr>updateStats := stats, isUpdateDialogOpen := True\<rparr>))
             else Inr st)
            (\<lambda>st'. Inr (st'\<lparr>sessions := newSessions, filteredSessions := newSessions\<rparr>)))"

definition fetchData :: "bool \<Rightarrow> response \<Rightarrow> app_state \<Rightarrow> app_state" where
  "fetchData showRefreshing resp st =
     (let st1 = (if showRefreshing then st\<lparr>isRefreshing := True\<rparr> else st\<lparr>isLoading := True\<rparr>);
          st2 = (case fetch_try st1 resp of Inl e \<Rightarrow> st1 | Inr st' \<Rightarrow> st')
      in st2\<lparr>isLoading := False, isRefreshing := False\<rparr>)"

subsection \<open>The room button of a session card\<close>

definition handleRoomClick :: "jsval \<Rightarrow> app_state \<Rightarrow> app_state" where
  "handleRoomClick room st = st\<lparr>selectedRoom := room, view := ''schedule''\<rparr>"

text \<open>
  \<^verbatim>\<open>onClick={() => onRoomClick(session.slot_room?.name)}\<close>. The card renders this button for
  every session, with or without a room; the track button beside it is rendered only under
  \<^verbatim>\<open>session.track &&\<close>. The session of a card is one of \<open>filteredSessions\<close> that the
  grouping has read, so it is not \<^verbatim>\<open>null\<close>.
\<close>

definition room_button_click :: "json \<Rightarrow> app_state \<Rightarrow> app_state" where
  "room_button_click session st =
     handleRoomClick (opt_prop (opt_prop (Some session) ''slot_room'') ''name'') st"

section \<open>The data model the properties are stated against\<close>

text \<open>The property \<open>k\<close> of a value that is not \<^verbatim>\<open>null\<close>; \<^verbatim>\<open>undefined\<close> when it has none.\<close>

definition field :: "json \<Rightarrow> string \<Rightarrow> jsval" where
  "field s k = opt_prop (Some s) k"

fun is_string :: "jsval \<Rightarrow> bool" where
  "is_string (Some (JStr s)) = True"
| "is_string v = False"

fun absent :: "jsval \<Rightarrow> bool" where
  "absent None = True"
| "absent (Some JNull) = True"
| "absent v = False"

definition speaker_shape :: "json \<Rightarrow> bool" where
  "speaker_shape p = (case p of JObj kvs \<Rightarrow> is_string (map_of kvs ''name'') | _ \<Rightarrow> False)"

definition speakers_shape :: "jsval \<Rightarrow> bool" where
  "speakers_shape v =
     (absent v \<or> (case v of Some (JArr ps) \<Rightarrow> list_all speaker_shape ps | _ \<Rightarrow> False))"

text \<open>
  The Session shape of the data model: an object whose \<^verbatim>\<open>title\<close> and \<^verbatim>\<open>description\<close> are
  strings, whose \<^verbatim>\<open>track\<close> is absent, \<^verbatim>\<open>null\<close> or a string, and whose \<^verbatim>\<open>speakers\<close> are
  absent, \<^verbatim>\<open>null\<close> or an array of objects with a string \<^verbatim>\<open>name\<close>. Nothing is asked of
  \<^verbatim>\<open>slot_room\<close> or of the resource links.
\<close>

definition session_shape :: "json \<Rightarrow> bool" where
  "session_shape s =
     (case s of
        JObj kvs \<Rightarrow>
          is_string (map_of kvs ''title'') \<and> is_string (map_of kvs ''description'')
          \<and> (absent (map_of kvs ''track'') \<or> is_string (map_of kvs ''track''))
          \<and> speakers_shape (map_of kvs ''speakers'')
      | _ \<Rightarrow> False)"

text \<open>The string under a key, the empty string when the key holds none.\<close>

definition str_field :: "json \<Rightarrow> string \<Rightarrow> string" where
  "str_field s k = (case field s k of Some (JStr x) \<Rightarrow> x | _ \<Rightarrow> [])"

definition speaker_list :: "json \<Rightarrow> json list" where
  "speaker_list s = (case field s ''speakers'' of Some (JArr ps) \<Rightarrow> ps | _ \<Rightarrow> [])"

text \<open>
  The search text as the specification words it: lower-cased title, description, track
  (empty if absent) and the space-joined lower-cased speaker names (empty if there are
  none), joined by single spaces in that order.
\<close>

definition spec_searchText :: "json \<Rightarrow> string" where
  "spec_searchText s =
     map toLowerChar (str_field s ''title'') @ '' '' @
     map toLowerChar (str_field s ''description'') @ '' '' @
     map toLowerChar (str_field s ''track'') @ '' '' @
     join '' '' (map (\<lambda>p. map toLowerChar (str_field p ''name'')) (speaker_list s))"

text \<open>An element of a search index: an object whose \<open>searchText\<close> is a string.\<close>

definition indexed :: "json \<Rightarrow> bool" where
  "indexed s = (case s of JObj kvs \<Rightarrow> is_string (map_of kvs ''searchText'') | _ \<Rightarrow> False)"

text \<open>The four predicates of the filter pipeline, on an indexed session.\<close>

definition matches_search :: "string \<Rightarrow> json \<Rightarrow> bool" where
  "matches_search q s =
     (q = [] \<or> str_includes (str_field s ''searchText'') (map toLowerChar q))"

definition matches_day :: "date_fn \<Rightarrow> label_fn \<Rightarrow> string \<Rightarrow> json \<Rightarrow> bool" where
  "matches_day date label day s = (day = ''all'' \<or> label (date (field s ''slot_start'')) = day)"

definition matches_track :: "string \<Rightarrow> json \<Rightarrow> bool" where
  "matches_track track s = (track = ''all'' \<or> field s ''track'' = Some (JStr track))"

definition matches_room :: "jsval \<Rightarrow> json \<Rightarrow> bool" where
  "matches_room room s =
     (room = Some (JStr ''all'') \<or> strict_eq (opt_prop (field s ''slot_room'') ''name'') room)"

text \<open>The sequence the grouping runs over, which the view selects.\<close>

definition sessions_to_group :: "string \<Rightarrow> json list \<Rightarrow> json list \<Rightarrow> jsval list \<Rightarrow> json list" where
  "sessions_to_group v filtered all_sessions bookmarked =
     (if v = ''schedule'' then filtered
      else filter (\<lambda>s. array_includes bookmarked (field s ''id'')) all_sessions)"

definition start_time :: "date_fn \<Rightarrow> json \<Rightarrow> int option" where
  "start_time date s = date (field s ''slot_start'')"

definition end_time :: "date_fn \<Rightarrow> json \<Rightarrow> int option" where
  "end_time date s = date (field s ''slot_end'')"

definition day_label :: "date_fn \<Rightarrow> label_fn \<Rightarrow> json \<Rightarrow> string" where
  "day_label date label s = label (start_time date s)"

text \<open>A session is live at \<open>now\<close>: \<open>slot_start \<le> now \<le> slot_end\<close>, both being valid dates.\<close>

definition is_live :: "date_fn \<Rightarrow> int \<Rightarrow> json \<Rightarrow> bool" where
  "is_live date now s =
     (case (start_time date s, end_time date s) of
        (Some a, Some b) \<Rightarrow> a \<le> now \<and> now \<le> b
      | _ \<Rightarrow> False)"

text \<open>\<open>a.slot_start \<le> b.slot_start\<close>, both being valid dates.\<close>

definition starts_le :: "date_fn \<Rightarrow> json \<Rightarrow> json \<Rightarrow> bool" where
  "starts_le date a b =
     (case (start_time date a, start_time date b) of
        (Some x, Some y) \<Rightarrow> x \<le> y
      | _ \<Rightarrow> False)"

text \<open>The sessions filed under a day key, none when the key is missing.\<close>

definition bucket :: "(string \<times> json list) list \<Rightarrow> string \<Rightarrow> json list" where
  "bucket g d = (case map_of g d of Some xs \<Rightarrow> xs | None \<Rightarrow> [])"

text \<open>
  Deep structural equality as the specification words it: two values are equal when their
  canonical forms are, the canonical form listing the keys of every object in sorted order
  and keeping the order of every array.
\<close>

fun canon :: "json \<Rightarrow> json" where
  "canon (JArr xs) = JArr (map canon xs)"
| "canon (JObj kvs) = JObj (sort_key fst (map (\<lambda>kv. (fst kv, canon (snd kv))) kvs))"
| "canon v = v"

definition deep_equal :: "json \<Rightarrow> json \<Rightarrow> bool" where
  "deep_equal a b = (canon a = canon b)"

fun is_object :: "json \<Rightarrow> bool" where
  "is_object (JObj kvs) = True"
| "is_object v = False"

text \<open>The old session the diff compares a new session with: the first one with its id.\<close>

definition existing_session :: "json list \<Rightarrow> json \<Rightarrow> json option" where
  "existing_session old session =
     List.find (\<lambda>s. strict_eq (field s ''id'') (field session ''id'')) old"

subsection \<open>Reading a serialization back\<close>

definition is_digit :: "char \<Rightarrow> bool" where
  "is_digit c = (48 \<le> (of_char c :: nat) \<and> (of_char c :: nat) \<le> 57)"

definition undigits :: "string \<Rightarrow> nat" where
  "undigits s = foldl (\<lambda>a c. 10 * a + ((of_char c :: nat) - 48)) 0 s"

text \<open>What may follow a value inside a serialization: nothing, a comma or a closing bracket.\<close>

definition closes :: "string \<Rightarrow> bool" where
  "closes r = (case r of [] \<Rightarrow> True | c # cs \<Rightarrow> c = CHR '','' \<or> c = CHR '']'' \<or> c = CHR ''}'')"

text \<open>The kind of a value, and the kind a first character announces.\<close>

fun tag :: "json \<Rightarrow> nat" where
  "tag JNull = 0"
| "tag (JBool b) = 1"
| "tag (JNum n) = 2"
| "tag (JStr s) = 3"
| "tag (JArr xs) = 4"
| "tag (JObj kvs) = 5"

definition char_tag :: "char \<Rightarrow> nat" where
  "char_tag c =
     (if c = CHR ''n'' then 0
      else if c = CHR ''t'' \<or> c = CHR ''f'' then 1
      else if c = CHR ''-'' \<or> is_digit c then 2
      else if c = CHR 0x22 then 3
      else if c = CHR ''['' then 4
      else if c = CHR ''{'' then 5
      else 6)"

text \<open>The items of a comma-separated list after the first.\<close>

fun tail_items :: "('a \<Rightarrow> string) \<Rightarrow> 'a list \<Rightarrow> string" where
  "tail_items enc [] = []"
| "tail_items enc (x # xs) = CHR '','' # enc x @ tail_items enc xs"

subsection \<open>Sample data\<close>

definition session_A :: json where
  "session_A = JObj [(''id'', JStr ''a1''), (''title'', JStr ''Opening Keynote''),
     (''description'', JStr ''Welcome''), (''slot_start'', JNum 100), (''slot_end'', JNum 200)]"

definition session_A_reordered :: json where
  "session_A_reordered = JObj [(''title'', JStr ''Opening Keynote''), (''id'', JStr ''a1''),
     (''description'', JStr ''Welcome''), (''slot_start'', JNum 100), (''slot_end'', JNum 200)]"

definition session_A_edited :: json where
  "session_A_edited = JObj [(''id'', JStr ''a1''), (''title'', JStr ''Opening Keynote''),
     (''description'', JStr ''Welcome back''), (''slot_start'', JNum 100), (''slot_end'', JNum 200)]"

definition session_B :: json where
  "session_B = JObj [(''id'', JStr ''b2''), (''title'', JStr ''Scaling''),
     (''description'', JStr ''Rollups''), (''track'', JStr ''Core''),
     (''speakers'', JArr [JObj [(''id'', JStr ''p1''), (''name'', JStr ''Ann Lee'')],
                         JObj [(''id'', JStr ''p2''), (''name'', JStr ''Bob'')]]),
     (''slot_start'', JNum 50), (''slot_end'', JNum 150),
     (''slot_room'', JObj [(''name'', JStr ''Main'')])]"

definition session_C :: json where
  "session_C = JObj [(''id'', JStr ''c3''), (''title'', JStr ''Wallets''),
     (''description'', JStr ''UX''), (''track'', JStr ''Apps''),
     (''slot_start'', JNum 50), (''slot_end'', JNum 90),
     (''slot_room'', JObj [(''name'', JStr ''Side'')])]"

definition sample_index :: "json list" where
  "sample_index =
     (case createSearchIndex [session_A, session_B, session_C] of
        Inr idx \<Rightarrow> idx
      | Inl e \<Rightarrow> [])"

text \<open>A calendar for the samples: numbers are time values, and a day lasts 1000 units.\<close>

definition sample_date :: date_fn where
  "sample_date v = (case v of Some (JNum n) \<Rightarrow> Some n | _ \<Rightarrow> None)"

definition sample_label :: label_fn where
  "sample_label t =
     (case t of
        Some n \<Rightarrow> (if n < 1000 then ''Monday, Nov 11'' else ''Tuesday, Nov 12'')
      | None \<Rightarrow> ''Invalid Date'')"

definition sample_state :: app_state where
  "sample_state =
     \<lparr>sessions = [session_A], isLoading = False, isRefreshing = False,
      filteredSessions = [session_A], searchIndex = [], bookmarkedSessions = [],
      searchTerm = [], selectedDay = ''all'', selectedTrack = ''Core'', selectedRoom = Some (JStr ''all''),
      view = ''schedule'', isUpdateDialogOpen = False,
      updateStats = \<lparr>added = 0, modified = 0, unchanged = 0\<rparr>\<rparr>"

section \<open>Properties\<close>

subsection \<open>Auxiliary facts\<close>


lemma and_then_Inl [simp]: "and_then (Inl e) f = Inl e"
  by (simp add: and_then_def)

lemma and_then_Inr [simp]: "and_then (Inr x) f = f x"
  by (simp add: and_then_def)

lemma and_then_eq_Inr: "and_then r f = Inr y \<longleftrightarrow> (\<exists>x. r = Inr x \<and> f x = Inr y)"
  by (cases r) simp_all

lemma strict_eq_self: "strict_eq v v = is_primitive v"
  by (simp add: strict_eq_def)

lemma array_includes_iff: "array_includes xs v \<longleftrightarrow> is_primitive v \<and> v \<in> set xs"
  by (auto simp: array_includes_def list_ex_iff strict_eq_def)

lemma map_r_eq_map:
  "(\<And>x. x \<in> set xs \<Longrightarrow> f x = Inr (g x)) \<Longrightarrow> map_r f xs = Inr (map g xs)"
  by (induction xs) simp_all

lemma map_r_length: "map_r f xs = Inr ys \<Longrightarrow> length ys = length xs"
  by (induction xs arbitrary: ys) (auto simp: and_then_eq_Inr)

lemma starts_with_iff: "starts_with pat tx \<longleftrightarrow> (\<exists>ss. tx = pat @ ss)"
  by (induction pat tx rule: starts_with.induct) auto

lemma str_includes_iff: "str_includes tx pat \<longleftrightarrow> (\<exists>ps ss. tx = ps @ pat @ ss)"
proof (induction tx)
  case Nil
  then show ?case by auto
next
  case (Cons c cs)
  show ?case
  proof
    assume "str_includes (c # cs) pat"
    then consider "starts_with pat (c # cs)" | "str_includes cs pat" by auto
    then show "\<exists>ps ss. c # cs = ps @ pat @ ss"
    proof cases
      case 1
      then obtain ss where "c # cs = pat @ ss" by (auto simp: starts_with_iff)
      then have "c # cs = [] @ pat @ ss" by simp
      then show ?thesis by blast
    next
      case 2
      then obtain ps ss where "cs = ps @ pat @ ss" using Cons.IH by auto
      then have "c # cs = (c # ps) @ pat @ ss" by simp
      then show ?thesis by blast
    qed
  next
    assume "\<exists>ps ss. c # cs = ps @ pat @ ss"
    then obtain ps ss where eq: "c # cs = ps @ pat @ ss" by auto
    show "str_includes (c # cs) pat"
    proof (cases ps)
      case Nil
      with eq have "starts_with pat (c # cs)" by (auto simp: starts_with_iff)
      then show ?thesis by simp
    next
      case (Cons p ps')
      with eq have "cs = ps' @ pat @ ss" by simp
      then have "str_includes cs pat" using Cons.IH by auto
      then show ?thesis by simp
    qed
  qed
qed

lemma map_of_obj_set:
  "map_of (obj_set kvs k v) k' = (if k' = k then Some v else map_of kvs k')"
  by (induction kvs) auto

lemma is_string_cases: "is_string v \<Longrightarrow> \<exists>x. v = Some (JStr x)"
  by (cases v rule: is_string.cases) auto

lemma speaker_name_shape:
  "speaker_shape p \<Longrightarrow> speaker_name p = Inr (map toLowerChar (str_field p ''name''))"
  by (cases p) (auto simp: speaker_shape_def speaker_name_def str_field_def field_def dest!: is_string_cases)

lemma absent_cases: "absent v \<Longrightarrow> v = None \<or> v = Some JNull"
  by (cases v rule: absent.cases) auto

lemma searchText_of_shape:
  assumes "session_shape s"
  shows "searchText_of s = Inr (spec_searchText s)"
proof -
  from assms obtain kvs where s: "s = JObj kvs"
    by (cases s) (auto simp: session_shape_def)
  from assms s obtain t d where t: "map_of kvs ''title'' = Some (JStr t)"
    and d: "map_of kvs ''description'' = Some (JStr d)"
    by (auto simp: session_shape_def dest!: is_string_cases)
  from assms s have tr: "absent (map_of kvs ''track'') \<or> is_string (map_of kvs ''track'')"
    by (simp add: session_shape_def)
  have track: "toLowerCase (or_else (map_of kvs ''track'') (JStr [])) = Inr (map toLowerChar (str_field s ''track''))"
    using tr by (auto simp: or_else_def str_field_def field_def s dest!: is_string_cases absent_cases)
  from assms s have sp: "speakers_shape (map_of kvs ''speakers'')"
    by (simp add: session_shape_def)
  have names: "speaker_names (or_else (map_of kvs ''speakers'') (JArr []))
      = Inr (map (\<lambda>p. map toLowerChar (str_field p ''name'')) (speaker_list s))"
  proof (cases "absent (map_of kvs ''speakers'')")
    case True
    then show ?thesis
      by (auto simp: or_else_def speaker_list_def field_def s dest!: absent_cases)
  next
    case False
    with sp obtain ps where ps: "map_of kvs ''speakers'' = Some (JArr ps)" "list_all speaker_shape ps"
      by (auto simp: speakers_shape_def split: option.splits json.splits)
    then have "map_r speaker_name ps = Inr (map (\<lambda>p. map toLowerChar (str_field p ''name'')) ps)"
      by (intro map_r_eq_map speaker_name_shape) (simp add: list_all_iff)
    with ps show ?thesis
      by (simp add: or_else_def speaker_list_def field_def s)
  qed
  show ?thesis
    using t d track names
    by (simp add: searchText_of_def s spec_searchText_def str_field_def field_def)
qed

lemma createSearchIndex_build:
  assumes "list_all session_shape S"
  shows "\<exists>idx. createSearchIndex S = Inr idx
           \<and> length idx = length S
           \<and> (\<forall>i<length S.
                 idx ! i = JObj (obj_set (own_props (S ! i)) ''searchText''
                                   (JStr (spec_searchText (S ! i))))
               \<and> field (idx ! i) ''searchText'' = Some (JStr (spec_searchText (S ! i)))
               \<and> (\<forall>k. k \<noteq> ''searchText'' \<longrightarrow> field (idx ! i) k = field (S ! i) k)
               \<and> str_includes (spec_searchText (S ! i))
                    (map toLowerChar (str_field (S ! i) ''title'')))"
proof -
  let ?g = "\<lambda>s. JObj (obj_set (own_props s) ''searchText'' (JStr (spec_searchText s)))"
  have "createSearchIndex S = Inr (map ?g S)"
    unfolding createSearchIndex_def
    using assms
    by (intro map_r_eq_map) (simp add: index_session_def searchText_of_shape list_all_iff)
  moreover have "field (?g s) ''searchText'' = Some (JStr (spec_searchText s))" for s
    by (simp add: field_def map_of_obj_set)
  moreover have "k \<noteq> ''searchText'' \<Longrightarrow> field (?g s) k = field s k" if "session_shape s" for s k
    using that by (cases s) (auto simp: field_def map_of_obj_set session_shape_def)
  moreover have "str_includes (spec_searchText s) (map toLowerChar (str_field s ''title''))" for s
    unfolding str_includes_iff spec_searchText_def
    by (rule exI [of _ "[]"]) auto
  ultimately show ?thesis
    using assms by (auto simp: list_all_iff)
qed

lemma filter_r_eq_filter:
  "(\<And>x. x \<in> set xs \<Longrightarrow> p x = Inr (g x)) \<Longrightarrow> filter_r p xs = Inr (filter g xs)"
  by (induction xs) simp_all

lemma map_r_set:
  "map_r f xs = Inr ys \<Longrightarrow> y \<in> set ys \<Longrightarrow> \<exists>x\<in>set xs. f x = Inr y"
  by (induction xs arbitrary: ys) (auto simp: and_then_eq_Inr)

lemma get_prop_field: "s \<noteq> JNull \<Longrightarrow> get_prop s k = Inr (field s k)"
  by (cases s) (simp_all add: field_def)

lemma filter_r_nonnull:
  assumes "JNull \<notin> set xs" and "\<And>x. x \<noteq> JNull \<Longrightarrow> p x = Inr (g x)"
  shows "filter_r p xs = Inr (filter g xs)"
proof (rule filter_r_eq_filter)
  fix x assume "x \<in> set xs"
  with assms(1) have "x \<noteq> JNull" by auto
  then show "p x = Inr (g x)" by (rule assms(2))
qed

lemma subseq_filter_of: "subseq xs ys \<Longrightarrow> subseq (filter P xs) ys"
  by (meson subseq_filter_left subseq_order.trans)

lemma index_session_indexed: "index_session s = Inr s' \<Longrightarrow> indexed s'"
  by (auto simp: index_session_def and_then_eq_Inr indexed_def map_of_obj_set)

lemma createSearchIndex_indexed:
  "createSearchIndex S = Inr idx \<Longrightarrow> s \<in> set idx \<Longrightarrow> indexed s"
  unfolding createSearchIndex_def
  by (blast dest: map_r_set index_session_indexed)

lemma search_stage_indexed:
  assumes "\<And>s. s \<in> set xs \<Longrightarrow> indexed s"
  shows "search_stage q xs = Inr (filter (matches_search q) xs)"
proof (cases "q = []")
  case True
  then show ?thesis by (simp add: search_stage_def matches_search_def)
next
  case False
  have "filter_r (\<lambda>session. and_then (get_prop session ''searchText'')
                   (\<lambda>t. js_includes t (map toLowerChar q))) xs
        = Inr (filter (matches_search q) xs)"
  proof (rule filter_r_eq_filter)
    fix s assume "s \<in> set xs"
    then have "indexed s" by (rule assms)
    then show "and_then (get_prop s ''searchText'') (\<lambda>t. js_includes t (map toLowerChar q))
               = Inr (matches_search q s)"
      using False
      by (cases s) (auto simp: indexed_def matches_search_def str_field_def field_def
                         dest!: is_string_cases)
  qed
  with False show ?thesis by (simp add: search_stage_def)
qed

lemma day_stage_objects:
  assumes "JNull \<notin> set xs"
  shows "day_stage date label day xs = Inr (filter (matches_day date label day) xs)"
proof (cases "day = ''all''")
  case True
  then show ?thesis by (simp add: day_stage_def matches_day_def)
next
  case False
  have "filter_r (\<lambda>session. and_then (day_of date label session) (\<lambda>d. Inr (d = day))) xs
        = Inr (filter (matches_day date label day) xs)"
    using assms False
    by (intro filter_r_nonnull) (simp_all add: day_of_def get_prop_field matches_day_def)
  with False show ?thesis by (simp add: day_stage_def)
qed

lemma track_stage_objects:
  assumes "JNull \<notin> set xs"
  shows "track_stage track xs = Inr (filter (matches_track track) xs)"
proof (cases "track = ''all''")
  case True
  then show ?thesis by (simp add: track_stage_def matches_track_def)
next
  case False
  have "filter_r (\<lambda>session. and_then (get_prop session ''track'')
                   (\<lambda>t. Inr (strict_eq t (Some (JStr track))))) xs
        = Inr (filter (matches_track track) xs)"
    using assms False
    by (intro filter_r_nonnull) (auto simp: get_prop_field strict_eq_def matches_track_def)
  with False show ?thesis by (simp add: track_stage_def)
qed

lemma room_stage_objects:
  assumes "JNull \<notin> set xs"
  shows "room_stage room xs = Inr (filter (matches_room room) xs)"
proof (cases "room = Some (JStr ''all'')")
  case True
  then show ?thesis by (simp add: room_stage_def matches_room_def strict_eq_def)
next
  case False
  have "filter_r (\<lambda>session. and_then (get_prop session ''slot_room'')
                   (\<lambda>r. Inr (strict_eq (opt_prop r ''name'') room))) xs
        = Inr (filter (matches_room room) xs)"
    using assms False
    by (intro filter_r_nonnull) (simp_all add: get_prop_field matches_room_def)
  with False show ?thesis by (simp add: room_stage_def strict_eq_def)
qed

lemma filterSessions_indexed:
  assumes "\<And>s. s \<in> set idx \<Longrightarrow> indexed s"
  shows "filterSessions date label q day track room idx
         = Inr (filter (matches_room room) (filter (matches_track track)
                 (filter (matches_day date label day) (filter (matches_search q) idx))))"
proof -
  have nn: "JNull \<notin> set idx" using assms by (fastforce simp: indexed_def)
  then show ?thesis
    unfolding filterSessions_def
    by (simp add: search_stage_indexed [OF assms] day_stage_objects track_stage_objects
                  room_stage_objects)
qed

lemma isCurrentSession_is_live:
  "isCurrentSession date now (field s ''slot_start'') (field s ''slot_end'') = is_live date now s"
  by (auto simp: isCurrentSession_def is_live_def start_time_def end_time_def
           split: option.splits)

lemma group_step_nonnull:
  "s \<noteq> JNull \<Longrightarrow>
     group_step date label now acc s
       = Inr (push_group (fst acc) (day_label date label s) s, snd acc \<or> is_live date now s)"
  by (simp add: group_step_def get_prop_field isCurrentSession_is_live day_label_def
                start_time_def)

lemma for_each_group:
  "JNull \<notin> set xs \<Longrightarrow>
     for_each_r (group_step date label now) acc xs
       = Inr (foldl (\<lambda>g s. push_group g (day_label date label s) s) (fst acc) xs,
              snd acc \<or> (\<exists>s\<in>set xs. is_live date now s))"
proof (induction xs arbitrary: acc)
  case Nil
  then show ?case by simp
next
  case (Cons x xs)
  then have "x \<noteq> JNull" "JNull \<notin> set xs" by auto
  then show ?case
    using Cons.IH [of "(push_group (fst acc) (day_label date label x) x,
                        snd acc \<or> is_live date now x)"]
    by (auto simp: group_step_nonnull)
qed

lemma sessions_to_group_eval:
  "JNull \<notin> set (if v = ''schedule'' then f else a) \<Longrightarrow>
     (if v = ''schedule'' then Inr f
      else filter_r (\<lambda>session. and_then (get_prop session ''id'')
                      (\<lambda>i. Inr (array_includes b i))) a)
     = Inr (sessions_to_group v f a b)"
  by (auto simp: sessions_to_group_def get_prop_field intro!: filter_r_nonnull)

lemma sessions_to_group_nonnull:
  "JNull \<notin> set (if v = ''schedule'' then f else a) \<Longrightarrow> JNull \<notin> set (sessions_to_group v f a b)"
  by (auto simp: sessions_to_group_def)

lemma groupedSessions_eval:
  assumes "JNull \<notin> set (if v = ''schedule'' then f else a)"
  shows "groupedSessions date label now v f a b
         = Inr (map (\<lambda>g. (fst g, array_sort (compare_start date) (snd g)))
                  (foldl (\<lambda>g s. push_group g (day_label date label s) s) []
                     (sessions_to_group v f a b)),
                \<exists>s\<in>set (sessions_to_group v f a b). is_live date now s)"
  unfolding groupedSessions_def
  by (simp add: sessions_to_group_eval [OF assms]
        for_each_group [OF sessions_to_group_nonnull [OF assms]])



lemma keys_push_group:
  "fst ` set (push_group g d s) = insert d (fst ` set g)"
  by (induction g d s rule: push_group.induct) auto

lemma distinct_push_group:
  "distinct (map fst g) \<Longrightarrow> distinct (map fst (push_group g d s))"
proof (induction g d s rule: push_group.induct)
  case (1 day session)
  then show ?case by simp
next
  case (2 d xs g day session)
  then show ?case
    using keys_push_group [of g day session] by auto
qed

lemma bucket_push_group:
  "bucket (push_group g d s) d' = bucket g d' @ (if d' = d then [s] else [])"
  by (induction g d s rule: push_group.induct) (auto simp: bucket_def)

lemma foldl_push_group:
  "distinct (map fst g0) \<Longrightarrow>
     distinct (map fst (foldl (\<lambda>g s. push_group g (dl s) s) g0 xs))
     \<and> set (map fst (foldl (\<lambda>g s. push_group g (dl s) s) g0 xs)) = set (map fst g0) \<union> dl ` set xs
     \<and> (\<forall>d. bucket (foldl (\<lambda>g s. push_group g (dl s) s) g0 xs) d
            = bucket g0 d @ filter (\<lambda>s. dl s = d) xs)"
proof (induction xs arbitrary: g0)
  case Nil
  then show ?case by simp
next
  case (Cons x xs)
  from Cons.IH [OF distinct_push_group [OF Cons.prems, of "dl x" x]]
  show ?case
    by (auto simp: keys_push_group bucket_push_group)
qed

lemma bucket_member:
  "distinct (map fst g) \<Longrightarrow> (d, xs) \<in> set g \<Longrightarrow> bucket g d = xs"
  by (simp add: bucket_def)

lemma insort_by_valid:
  assumes "start_time date x \<noteq> None" "\<forall>y\<in>set ys. start_time date y \<noteq> None"
  shows "insort_by (compare_start date) x ys = insort_key (\<lambda>s. the (start_time date s)) x ys"
  using assms
  by (induction ys)
     (auto simp: compare_start_def start_time_def field_def split: option.splits)

lemma array_sort_valid:
  "\<forall>y\<in>set ys. start_time date y \<noteq> None \<Longrightarrow>
     array_sort (compare_start date) ys = sort_key (\<lambda>s. the (start_time date s)) ys"
proof (induction ys)
  case Nil
  then show ?case by (simp add: array_sort_def)
next
  case (Cons y ys)
  let ?k = "\<lambda>s. the (start_time date s)"
  from Cons have ih: "array_sort (compare_start date) ys = sort_key ?k ys"
    by simp
  have step: "array_sort (compare_start date) (y # ys)
                 = insort_by (compare_start date) y (array_sort (compare_start date) ys)"
    by (simp add: array_sort_def)
  have "insort_by (compare_start date) y (sort_key ?k ys) = insort_key ?k y (sort_key ?k ys)"
    using Cons.prems by (intro insort_by_valid) simp_all
  with ih step show ?case by simp
qed

lemma array_sort_sorted:
  assumes "\<forall>y\<in>set ys. start_time date y \<noteq> None"
  shows "sorted_wrt (starts_le date) (array_sort (compare_start date) ys)"
proof -
  let ?k = "\<lambda>s. the (start_time date s)"
  have "sorted (map ?k (sort_key ?k ys))" by (rule sorted_sort_key)
  then have "sorted_wrt (\<lambda>a b. ?k a \<le> ?k b) (sort_key ?k ys)"
    by (simp add: sorted_map)
  then have "sorted_wrt (starts_le date) (sort_key ?k ys)"
  proof (rule sorted_wrt_mono_rel [rotated])
    fix a b assume "a \<in> set (sort_key ?k ys)" "b \<in> set (sort_key ?k ys)" "?k a \<le> ?k b"
    moreover from this assms obtain x y where "start_time date a = Some x" "start_time date b = Some y"
      by fastforce
    ultimately show "starts_le date a b"
      by (simp add: starts_le_def)
  qed
  then show ?thesis by (simp add: array_sort_valid [OF assms])
qed

lemma array_sort_stable:
  assumes "\<forall>y\<in>set ys. start_time date y \<noteq> None"
  shows "filter (\<lambda>s. start_time date s = t) (array_sort (compare_start date) ys)
         = filter (\<lambda>s. start_time date s = t) ys"
proof (cases t)
  case None
  have "filter (\<lambda>s. start_time date s = None) (array_sort (compare_start date) ys) = []"
    using assms by (simp add: array_sort_valid [OF assms])
  moreover have "filter (\<lambda>s. start_time date s = None) ys = []"
    using assms by simp
  ultimately show ?thesis using None by simp
next
  case (Some u)
  let ?k = "\<lambda>s. the (start_time date s)"
  have "filter (\<lambda>s. start_time date s = Some u) (sort_key ?k ys)
        = filter (\<lambda>s. ?k s = u) (sort_key ?k ys)"
    using assms by (intro filter_cong) auto
  also have "\<dots> = filter (\<lambda>s. ?k s = u) ys" by (rule sort_key_stable)
  also have "\<dots> = filter (\<lambda>s. start_time date s = Some u) ys"
    using assms by (intro filter_cong) auto
  finally show ?thesis using Some by (simp add: array_sort_valid [OF assms])
qed

lemma array_sort_length:
  "\<forall>y\<in>set ys. start_time date y \<noteq> None \<Longrightarrow> length (array_sort (compare_start date) ys) = length ys"
  by (simp add: array_sort_valid)

lemma absent_str_field: "absent (field s k) \<Longrightarrow> str_field s k = []"
  by (auto simp: str_field_def dest!: absent_cases)

lemma absent_speaker_list: "absent (field s ''speakers'') \<Longrightarrow> speaker_list s = []"
  by (auto simp: speaker_list_def dest!: absent_cases)

lemma absent_track_match:
  "absent (field s ''track'') \<Longrightarrow> matches_track track s = (track = ''all'')"
  by (auto simp: matches_track_def dest!: absent_cases)

lemma absent_room_match:
  "absent (field s ''slot_room'') \<Longrightarrow>
     matches_room room s = (room = Some (JStr ''all'') \<or> room = None)"
  by (auto simp: matches_room_def strict_eq_def dest!: absent_cases)

lemma session_shape_nonnull: "session_shape s \<Longrightarrow> s \<noteq> JNull"
  by (auto simp: session_shape_def)

lemma indexed_nonnull: "indexed s \<Longrightarrow> s \<noteq> JNull"
  by (auto simp: indexed_def)

lemma set_insort_by: "set (insort_by cmp x ys) = insert x (set ys)"
  by (induction ys) auto

lemma set_array_sort: "set (array_sort cmp xs) = set xs"
  by (induction xs) (simp_all add: array_sort_def set_insort_by)

lemma groupedSessions_buckets:
  assumes nn: "JNull \<notin> set (if v = ''schedule'' then f else a)"
  shows "\<exists>g. groupedSessions date label now v f a b
               = Inr (g, \<exists>s\<in>set (sessions_to_group v f a b). is_live date now s)
           \<and> fst ` set g = day_label date label ` set (sessions_to_group v f a b)
           \<and> (\<forall>(d, xs)\<in>set g.
                 set xs = {s \<in> set (sessions_to_group v f a b). day_label date label s = d})"
proof -
  let ?src = "sessions_to_group v f a b"
  let ?raw = "foldl (\<lambda>g s. push_group g (day_label date label s) s) [] ?src"
  let ?res = "map (\<lambda>g. (fst g, array_sort (compare_start date) (snd g))) ?raw"
  have inv: "distinct (map fst ?raw)"
    "fst ` set ?raw = day_label date label ` set ?src"
    "\<And>d. bucket ?raw d = filter (\<lambda>s. day_label date label s = d) ?src"
    using foldl_push_group [of "[]" "day_label date label" ?src] by (simp_all add: bucket_def)
  have keys: "fst ` set ?res = fst ` set ?raw" by force
  have "set xs = {s \<in> set ?src. day_label date label s = d}" if "(d, xs) \<in> set ?res" for d xs
  proof -
    from that obtain ys where ys: "(d, ys) \<in> set ?raw" "xs = array_sort (compare_start date) ys"
      by auto
    from bucket_member [OF inv(1) ys(1)] inv(3)
    have "ys = filter (\<lambda>s. day_label date label s = d) ?src" by simp
    with ys(2) show ?thesis by (simp add: set_array_sort)
  qed
  then have "\<forall>(d, xs)\<in>set ?res. set xs = {s \<in> set ?src. day_label date label s = d}"
    by blast
  with inv(2) keys groupedSessions_eval [OF nn, of date label now b]
  show ?thesis by (metis (no_types, lifting))
qed

subsection \<open>JSON.stringify is injective\<close>

lemma hex_digit_inj: "hex_digit a = hex_digit b \<Longrightarrow> a < 16 \<Longrightarrow> b < 16 \<Longrightarrow> a = b"
  by (auto simp: hex_digit_def split: if_splits)

lemma low_char_eq:
  assumes "hex_digit ((of_char c :: nat) div 16) = hex_digit ((of_char d :: nat) div 16)"
    and "hex_digit ((of_char c :: nat) mod 16) = hex_digit ((of_char d :: nat) mod 16)"
    and "(of_char c :: nat) < 32" "(of_char d :: nat) < 32"
  shows "c = d"
proof -
  have "(of_char c :: nat) div 16 = (of_char d :: nat) div 16"
    using assms by (intro hex_digit_inj) auto
  moreover have "(of_char c :: nat) mod 16 = (of_char d :: nat) mod 16"
    using assms by (intro hex_digit_inj) auto
  ultimately have "(of_char c :: nat) = of_char d"
    by (metis div_mult_mod_eq)
  then show ?thesis by simp
qed

lemma quote_char_prefix_free:
  "quote_char c @ x = quote_char d @ y \<Longrightarrow> c = d \<and> x = y"
  by (auto simp: quote_char_def split: if_splits dest: low_char_eq)

lemma quote_char_not_quote: "quote_char c @ x \<noteq> CHR 0x22 # y"
  by (auto simp: quote_char_def split: if_splits)

lemma quote_body_inj:
  "concat (map quote_char s) @ CHR 0x22 # r = concat (map quote_char s') @ CHR 0x22 # r'
     \<Longrightarrow> s = s' \<and> r = r'"
proof (induction s arbitrary: s')
  case Nil
  show ?case
  proof (cases s')
    case Nil
    with Nil.prems show ?thesis by simp
  next
    case (Cons d t)
    with Nil.prems
    have "quote_char d @ (concat (map quote_char t) @ CHR 0x22 # r') = CHR 0x22 # r"
      by simp
    then show ?thesis using quote_char_not_quote by blast
  qed
next
  case (Cons c s)
  show ?case
  proof (cases s')
    case Nil
    with Cons.prems
    have "quote_char c @ (concat (map quote_char s) @ CHR 0x22 # r) = CHR 0x22 # r'"
      by simp
    then show ?thesis using quote_char_not_quote by blast
  next
    case (Cons d t)
    with Cons.prems
    have "quote_char c @ (concat (map quote_char s) @ CHR 0x22 # r)
          = quote_char d @ (concat (map quote_char t) @ CHR 0x22 # r')"
      by simp
    then have cd: "c = d"
      and "concat (map quote_char s) @ CHR 0x22 # r = concat (map quote_char t) @ CHR 0x22 # r'"
      using quote_char_prefix_free by blast+
    from Cons.IH [OF this(2)] cd Cons show ?thesis by simp
  qed
qed

lemma quote_inj: "quote s @ r = quote s' @ r' \<Longrightarrow> s = s' \<and> r = r'"
  unfolding quote_def using quote_body_inj [of s r s' r'] by simp

lemma of_char_digit_char: "n < 10 \<Longrightarrow> (of_char (digit_char n) :: nat) = 48 + n"
  by (simp add: digit_char_def)

lemma is_digit_digit_char: "n < 10 \<Longrightarrow> is_digit (digit_char n)"
  by (simp add: is_digit_def of_char_digit_char)

lemma digits_all_digit: "\<forall>c\<in>set (digits n). is_digit c"
  by (induction n rule: digits.induct) (subst digits.simps, simp add: is_digit_digit_char)

lemma digits_nonempty: "digits n \<noteq> []"
  by (subst digits.simps) simp

lemma undigits_digits: "undigits (digits n) = n"
proof (induction n rule: digits.induct)
  case (1 n)
  show ?case
  proof (cases "n < 10")
    case True
    then show ?thesis
      by (subst digits.simps) (simp add: undigits_def of_char_digit_char)
  next
    case False
    with 1 have "undigits (digits (n div 10)) = n div 10" by simp
    with False show ?thesis
      by (subst digits.simps) (simp add: undigits_def of_char_digit_char)
  qed
qed

lemma digits_inj: "digits n = digits m \<Longrightarrow> n = m"
  by (metis undigits_digits)

lemma closes_not_digit: "closes (c # cs) \<Longrightarrow> \<not> is_digit c"
  by (auto simp: closes_def is_digit_def)

lemma takeWhile_digits:
  "closes r \<Longrightarrow> takeWhile is_digit (digits n @ r) = digits n"
  using digits_all_digit [of n]
  by (cases r) (auto dest: closes_not_digit)

lemma digits_append_inj:
  assumes "digits n @ r = digits m @ r'" "closes r" "closes r'"
  shows "n = m \<and> r = r'"
proof -
  have "digits n = digits m"
    using takeWhile_digits [OF assms(2), of n] takeWhile_digits [OF assms(3), of m] assms(1)
    by simp
  with assms(1) digits_inj [of n m] show ?thesis by simp
qed

lemma digits_hd: "\<exists>c cs. digits n = c # cs \<and> is_digit c"
  using digits_nonempty [of n] digits_all_digit [of n] by (cases "digits n") auto

lemma show_int_inj:
  assumes "show_int i @ r = show_int j @ r'" "closes r" "closes r'"
  shows "i = j \<and> r = r'"
proof -
  have nd: "\<not> is_digit (CHR ''-'')" by (simp add: is_digit_def)
  consider "i < 0" "j < 0" | "i < 0" "\<not> j < 0" | "\<not> i < 0" "j < 0" | "\<not> i < 0" "\<not> j < 0"
    by blast
  then show ?thesis
  proof cases
    case 1
    with assms have "digits (nat (- i)) @ r = digits (nat (- j)) @ r'"
      by (simp add: show_int_def)
    from digits_append_inj [OF this assms(2,3)] 1 show ?thesis by linarith
  next
    case 2
    from digits_hd [of "nat j"] obtain c cs where "digits (nat j) = c # cs" "is_digit c"
      by blast
    with assms(1) 2 have "is_digit (CHR ''-'')" by (simp add: show_int_def)
    with nd show ?thesis by simp
  next
    case 3
    from digits_hd [of "nat i"] obtain c cs where "digits (nat i) = c # cs" "is_digit c"
      by blast
    with assms(1) 3 have "is_digit (CHR ''-'')" by (simp add: show_int_def)
    with nd show ?thesis by simp
  next
    case 4
    with assms have "digits (nat i) @ r = digits (nat j) @ r'"
      by (simp add: show_int_def)
    from digits_append_inj [OF this assms(2,3)] 4 show ?thesis by linarith
  qed
qed


lemma char_tag_digit: "is_digit c \<Longrightarrow> char_tag c = 2"
  by (auto simp: char_tag_def is_digit_def)

lemma stringify_tag: "\<exists>c cs. stringify a = c # cs \<and> char_tag c = tag a"
proof (cases a)
  case (JNum n)
  from digits_hd [of "nat n"] obtain c cs where "digits (nat n) = c # cs" "is_digit c"
    by blast
  with JNum show ?thesis
    by (cases "n < 0") (simp_all add: show_int_def char_tag_digit, simp add: char_tag_def)
qed (simp_all add: char_tag_def quote_def is_digit_def)

lemma same_tag:
  assumes "stringify a @ r = stringify b @ r'"
  shows "tag a = tag b"
proof -
  from stringify_tag [of a] obtain c cs where a: "stringify a = c # cs" "char_tag c = tag a"
    by blast
  from stringify_tag [of b] obtain d ds where b: "stringify b = d # ds" "char_tag d = tag b"
    by blast
  from assms a(1) b(1) have "c = d" by simp
  have "tag a = char_tag c" using a(2) by (rule sym)
  also have "\<dots> = char_tag d" using \<open>c = d\<close> by (rule arg_cong)
  also have "\<dots> = tag b" by (rule b(2))
  finally show ?thesis .
qed

lemma closes_char_tag:
  assumes "closes (c # cs)"
  shows "char_tag c = 6"
proof -
  have "char_tag (CHR '','') = 6" "char_tag (CHR '']'') = 6" "char_tag (CHR ''}'') = 6"
    by (simp_all add: char_tag_def is_digit_def)
  moreover from assms have "c = CHR '','' \<or> c = CHR '']'' \<or> c = CHR ''}''"
    by (simp add: closes_def)
  ultimately show ?thesis by blast
qed

lemma not_closes_stringify: "\<not> closes (stringify a @ r)"
proof
  assume c: "closes (stringify a @ r)"
  from stringify_tag [of a] obtain d ds where a: "stringify a = d # ds" "char_tag d = tag a"
    by blast
  from c a(1) have "closes (d # (ds @ r))" by simp
  then have "char_tag d = 6" by (rule closes_char_tag)
  with a(2) have "tag a = 6" by (rule subst)
  then show False by (cases a) simp_all
qed

lemma not_closes_quote: "\<not> closes (quote k @ r)"
  by (simp add: quote_def closes_def)

lemma join_map_Cons: "join '','' (enc x # map enc xs) = enc x @ tail_items enc xs"
  by (induction xs arbitrary: x) simp_all

lemma closes_tail:
  "c = CHR '']'' \<or> c = CHR ''}'' \<Longrightarrow> closes (tail_items enc xs @ c # r)"
  by (cases xs) (auto simp: closes_def)

lemma tail_inj:
  assumes c: "c = CHR '']'' \<or> c = CHR ''}''"
  shows "(\<And>x y r r'. x \<in> set xs \<Longrightarrow> enc x @ r = enc y @ r' \<Longrightarrow> closes r \<Longrightarrow> closes r'
                  \<Longrightarrow> x = y \<and> r = r')
         \<Longrightarrow> tail_items enc xs @ c # r = tail_items enc ys @ c # r'
         \<Longrightarrow> xs = ys \<and> r = r'"
proof (induction xs arbitrary: ys)
  case Nil
  with c show ?case by (cases ys) auto
next
  case (Cons x xs)
  show ?case
  proof (cases ys)
    case Nil
    with Cons.prems(2) c show ?thesis by auto
  next
    case (Cons y ys')
    with Cons.prems(2)
    have e: "enc x @ (tail_items enc xs @ c # r) = enc y @ (tail_items enc ys' @ c # r')"
      by simp
    have h: "x = y \<and> tail_items enc xs @ c # r = tail_items enc ys' @ c # r'"
      by (rule Cons.prems(1) [OF _ e closes_tail [OF c] closes_tail [OF c]]) simp
    have "xs = ys' \<and> r = r'"
    proof (rule Cons.IH)
      show "tail_items enc xs @ c # r = tail_items enc ys' @ c # r'" using h by simp
    next
      fix u v s s'
      assume "u \<in> set xs" and e': "enc u @ s = enc v @ s'" and cl: "closes s" "closes s'"
      then have "u \<in> set (x # xs)" by simp
      then show "u = v \<and> s = s'" using e' cl by (rule Cons.prems(1))
    qed
    with h Cons show ?thesis by simp
  qed
qed

lemma join_inj:
  assumes inj: "\<And>x y r r'. x \<in> set xs \<Longrightarrow> enc x @ r = enc y @ r' \<Longrightarrow> closes r \<Longrightarrow> closes r'
                  \<Longrightarrow> x = y \<and> r = r'"
    and nc: "\<And>x r. \<not> closes (enc x @ r)"
    and c: "c = CHR '']'' \<or> c = CHR ''}''"
    and eq: "join '','' (map enc xs) @ c # r = join '','' (map enc ys) @ c # r'"
  shows "xs = ys \<and> r = r'"
proof (cases xs)
  case Nil
  show ?thesis
  proof (cases ys)
    case Nil
    with \<open>xs = []\<close> eq show ?thesis by simp
  next
    case (Cons y ys')
    with \<open>xs = []\<close> eq
    have "c # r = enc y @ (tail_items enc ys' @ c # r')"
      by (simp add: join_map_Cons)
    moreover have "closes (c # r)" using c by (auto simp: closes_def)
    ultimately have "closes (enc y @ (tail_items enc ys' @ c # r'))" by simp
    with nc show ?thesis by blast
  qed
next
  case (Cons x xs')
  show ?thesis
  proof (cases ys)
    case Nil
    with Cons eq
    have "c # r' = enc x @ (tail_items enc xs' @ c # r)"
      by (simp add: join_map_Cons)
    moreover have "closes (c # r')" using c by (auto simp: closes_def)
    ultimately have "closes (enc x @ (tail_items enc xs' @ c # r))" by simp
    with nc show ?thesis by blast
  next
    case (Cons y ys')
    with \<open>xs = x # xs'\<close> eq
    have e: "enc x @ (tail_items enc xs' @ c # r) = enc y @ (tail_items enc ys' @ c # r')"
      by (simp add: join_map_Cons)
    have h: "x = y \<and> tail_items enc xs' @ c # r = tail_items enc ys' @ c # r'"
      by (rule inj [OF _ e closes_tail [OF c] closes_tail [OF c]]) (simp add: \<open>xs = x # xs'\<close>)
    have "xs' = ys' \<and> r = r'"
    proof (rule tail_inj [OF c])
      show "tail_items enc xs' @ c # r = tail_items enc ys' @ c # r'"
        using h by simp
    next
      fix u v s s'
      assume "u \<in> set xs'" and e': "enc u @ s = enc v @ s'" and cl: "closes s" "closes s'"
      then have "u \<in> set xs" using \<open>xs = x # xs'\<close> by simp
      then show "u = v \<and> s = s'" using e' cl by (rule inj)
    qed
    with h Cons \<open>xs = x # xs'\<close> show ?thesis by simp
  qed
qed

lemma stringify_inj_aux:
  "stringify a @ r = stringify b @ r' \<Longrightarrow> closes r \<Longrightarrow> closes r' \<Longrightarrow> a = b \<and> r = r'"
proof (induction a arbitrary: b r r')
  case JNull
  from same_tag [OF JNull(1)] show ?case using JNull(1) by (cases b) simp_all
next
  case (JBool x)
  from same_tag [OF JBool(1)] show ?case using JBool(1)
    by (cases b) (auto split: if_splits)
next
  case (JNum n)
  from same_tag [OF JNum(1)] obtain m where "b = JNum m" by (cases b) simp_all
  with JNum show_int_inj [of n r m r'] show ?case by simp
next
  case (JStr s)
  from same_tag [OF JStr(1)] obtain t where "b = JStr t" by (cases b) simp_all
  with JStr quote_inj [of s r t r'] show ?case by simp
next
  case (JArr xs)
  from same_tag [OF JArr(2)] obtain ys where b: "b = JArr ys" by (cases b) simp_all
  with JArr(2) have eq: "join '','' (map stringify xs) @ CHR '']'' # r
                       = join '','' (map stringify ys) @ CHR '']'' # r'"
    by simp
  have "xs = ys \<and> r = r'"
  proof (rule join_inj [where enc = stringify, OF _ _ _ eq])
    fix x y s s'
    assume "x \<in> set xs" "stringify x @ s = stringify y @ s'" "closes s" "closes s'"
    then show "x = y \<and> s = s'" by (rule JArr(1))
  qed (simp_all add: not_closes_stringify)
  with b show ?case by simp
next
  case (JObj kvs)
  let ?enc = "\<lambda>kv. quote (fst kv) @ '':'' @ stringify (snd kv)"
  from same_tag [OF JObj(2)] obtain lws where b: "b = JObj lws" by (cases b) simp_all
  with JObj(2) have eq: "join '','' (map ?enc kvs) @ CHR ''}'' # r
                       = join '','' (map ?enc lws) @ CHR ''}'' # r'"
    by simp
  have "kvs = lws \<and> r = r'"
  proof (rule join_inj [where enc = ?enc, OF _ _ _ eq])
    fix x y s s'
    assume x: "x \<in> set kvs" and e: "?enc x @ s = ?enc y @ s'" and cl: "closes s" "closes s'"
    from e have "quote (fst x) @ (CHR '':'' # stringify (snd x) @ s)
               = quote (fst y) @ (CHR '':'' # stringify (snd y) @ s')"
      by simp
    from quote_inj [OF this]
    have k: "fst x = fst y" and v: "stringify (snd x) @ s = stringify (snd y) @ s'"
      by simp_all
    have "snd x \<in> Basic_BNFs.snds x" by (cases x) simp
    from JObj(1) [OF x this v cl] k show "x = y \<and> s = s'"
      by (simp add: prod_eq_iff)
  next
    fix x s show "\<not> closes (?enc x @ s)"
      using not_closes_quote [of "fst x"] by simp
  qed simp
  with b show ?case by simp
qed

lemma stringify_inj: "stringify a = stringify b \<longleftrightarrow> a = b"
  using stringify_inj_aux [of a "[]" b "[]"] by (auto simp: closes_def)

lemma find_r_same_id:
  "JNull \<notin> set old \<Longrightarrow> session \<noteq> JNull \<Longrightarrow>
     find_r (same_id session) old = Inr (existing_session old session)"
  by (induction old) (auto simp: same_id_def get_prop_field existing_session_def)

lemma deep_equal_refl: "deep_equal a a"
  by (simp add: deep_equal_def)

lemma is_object_truthy: "is_object e \<Longrightarrow> truthy (Some e) \<and> e \<noteq> JNull"
  by (cases e) simp_all

lemma find_in_set: "List.find P xs = Some x \<Longrightarrow> x \<in> set xs"
  by (induction xs) (auto split: if_splits)

subsection \<open>Bookmarks\<close>

text \<open>
  Claim C7. For every bookmark list and every session id (a primitive value, as identifiers
  are), \<open>toggleBookmark\<close> appends the id when it is absent and removes it when it is present,
  leaves the membership of every other id alone, and applied twice in succession restores
  the membership of every id.
\<close>

theorem toggleBookmark_membership:
  assumes "is_primitive sessionId"
  shows "(\<not> array_includes prev sessionId \<longrightarrow>
            toggleBookmark sessionId prev = prev @ [sessionId] \<and>
            array_includes (toggleBookmark sessionId prev) sessionId)
       \<and> (array_includes prev sessionId \<longrightarrow>
            \<not> array_includes (toggleBookmark sessionId prev) sessionId)
       \<and> (\<forall>i. i \<noteq> sessionId \<longrightarrow>
            array_includes (toggleBookmark sessionId prev) i = array_includes prev i)
       \<and> (\<forall>i. array_includes (toggleBookmark sessionId (toggleBookmark sessionId prev)) i
              = array_includes prev i)"
  using assms
  by (auto simp: toggleBookmark_def array_includes_iff strict_eq_def)

theorem toggleBookmark_membership_witness:
  "is_primitive (Some (JStr ''s2''))
   \<and> toggleBookmark (Some (JStr ''s2'')) [Some (JStr ''s1'')] = [Some (JStr ''s1''), Some (JStr ''s2'')]
   \<and> array_includes (toggleBookmark (Some (JStr ''s2''))
         (toggleBookmark (Some (JStr ''s2'')) [Some (JStr ''s1'')])) (Some (JStr ''s1''))
   \<and> \<not> array_includes (toggleBookmark (Some (JStr ''s2''))
         (toggleBookmark (Some (JStr ''s2'')) [Some (JStr ''s1'')])) (Some (JStr ''s2''))"
  using toggleBookmark_membership [of "Some (JStr ''s2'')" "[Some (JStr ''s1'')]"]
  by (simp add: toggleBookmark_def array_includes_def strict_eq_def)

subsection \<open>Fetching\<close>

text \<open>
  Claim C8. When the fetch fails with a network error or the body fails to parse, the state
  after \<open>fetchData\<close> is the state before it with only the two loading flags reset; in
  particular the session list is the one held before. Whatever the response, the session
  list afterwards is either the old list or the whole payload, never a part of it.
\<close>

theorem fetchData_failure_keeps_state:
  "fetchData r NetworkFailure st = st\<lparr>isLoading := False, isRefreshing := False\<rparr>
   \<and> fetchData r ParseFailure st = st\<lparr>isLoading := False, isRefreshing := False\<rparr>
   \<and> sessions (fetchData r NetworkFailure st) = sessions st
   \<and> sessions (fetchData r ParseFailure st) = sessions st
   \<and> (sessions (fetchData r resp st) = sessions st
        \<or> resp = Payload (sessions (fetchData r resp st)))"
  by (cases resp) (auto simp: fetchData_def fetch_try_def Let_def and_then_def split: sum.splits)

theorem fetchData_failure_keeps_state_witness:
  "fetchData True NetworkFailure sample_state = sample_state
   \<and> fetchData False ParseFailure sample_state = sample_state
   \<and> sessions (fetchData True ParseFailure sample_state) = [session_A]"
  using fetchData_failure_keeps_state [where r = True and st = sample_state and resp = ParseFailure]
        fetchData_failure_keeps_state [where r = False and st = sample_state and resp = ParseFailure]
  by (simp add: sample_state_def)

text \<open>
  Claim C2. When the held session list is empty (first load), \<open>fetchData\<close> leaves
  \<open>updateStats\<close> and \<open>isUpdateDialogOpen\<close> as they were; with a non-empty list, a diff that
  completes publishes its counts and opens the dialog. So the stats or the dialog change
  only when the old list is non-empty.
\<close>

theorem first_load_skips_diff:
  "(sessions st = [] \<longrightarrow>
      updateStats (fetchData r (Payload new) st) = updateStats st
      \<and> isUpdateDialogOpen (fetchData r (Payload new) st) = isUpdateDialogOpen st
      \<and> sessions (fetchData r (Payload new) st) = new)
   \<and> (sessions st \<noteq> [] \<longrightarrow> diff_sessions (sessions st) new = Inr stats \<longrightarrow>
      updateStats (fetchData r (Payload new) st) = stats
      \<and> isUpdateDialogOpen (fetchData r (Payload new) st))
   \<and> (updateStats (fetchData r resp st) \<noteq> updateStats st
        \<or> isUpdateDialogOpen (fetchData r resp st) \<noteq> isUpdateDialogOpen st
      \<longrightarrow> sessions st \<noteq> [])"
  by (cases resp) (auto simp: fetchData_def fetch_try_def Let_def and_then_def split: sum.splits)

theorem first_load_skips_diff_witness:
  "isUpdateDialogOpen
     (fetchData False (Payload [session_A, session_B]) (sample_state\<lparr>sessions := []\<rparr>)) = False
   \<and> updateStats
     (fetchData False (Payload [session_A, session_B]) (sample_state\<lparr>sessions := []\<rparr>))
       = \<lparr>added = 0, modified = 0, unchanged = 0\<rparr>
   \<and> isUpdateDialogOpen (fetchData True (Payload [session_A_reordered, session_B]) sample_state)
   \<and> updateStats (fetchData True (Payload [session_A_reordered, session_B]) sample_state)
       = \<lparr>added = 1, modified = 1, unchanged = 0\<rparr>"
proof -
  have d: "diff_sessions [session_A] [session_A_reordered, session_B]
             = Inr \<lparr>added = 1, modified = 1, unchanged = 0\<rparr>"
    by code_simp
  show ?thesis
    using first_load_skips_diff [where st = "sample_state\<lparr>sessions := []\<rparr>" and r = False
             and new = "[session_A, session_B]"]
          first_load_skips_diff [where st = sample_state and r = True
             and new = "[session_A_reordered, session_B]"
             and stats = "\<lparr>added = 1, modified = 1, unchanged = 0\<rparr>"] d
    by (simp add: sample_state_def)
qed

text \<open>
  Claim C10. After a successful fetch the visible list \<open>filteredSessions\<close> is the entire new
  session list, whatever the filter fields hold; \<open>fetchData\<close> touches neither the filter
  fields nor the search index, so the filters are reapplied only by a later run of
  \<open>filterSessions\<close>.
\<close>

theorem fetchData_shows_all_sessions:
  assumes "sessions st = [] \<or> (\<exists>stats. diff_sessions (sessions st) new = Inr stats)"
  shows "filteredSessions (fetchData r (Payload new) st) = new
       \<and> sessions (fetchData r (Payload new) st) = new
       \<and> searchIndex (fetchData r (Payload new) st) = searchIndex st
       \<and> searchTerm (fetchData r (Payload new) st) = searchTerm st
       \<and> selectedDay (fetchData r (Payload new) st) = selectedDay st
       \<and> selectedTrack (fetchData r (Payload new) st) = selectedTrack st
       \<and> selectedRoom (fetchData r (Payload new) st) = selectedRoom st"
  using assms
  by (auto simp: fetchData_def fetch_try_def Let_def and_then_def split: sum.splits)

theorem fetchData_shows_all_sessions_witness:
  "selectedTrack sample_state = ''Core''
   \<and> filteredSessions (fetchData True (Payload [session_B, session_C]) sample_state)
       = [session_B, session_C]
   \<and> selectedTrack (fetchData True (Payload [session_B, session_C]) sample_state) = ''Core''"
proof -
  have d: "diff_sessions [session_A] [session_B, session_C]
             = Inr \<lparr>added = 2, modified = 0, unchanged = 0\<rparr>"
    by code_simp
  show ?thesis
    using fetchData_shows_all_sessions [where st = sample_state and r = True
             and new = "[session_B, session_C]"] d
    by (simp add: sample_state_def)
qed

subsection \<open>Search index\<close>

text \<open>
  Claim C4. For every list of sessions of the Session shape, \<open>createSearchIndex\<close> returns a
  list of the same length in the same order: element \<open>i\<close> is session \<open>i\<close> with \<open>searchText\<close>
  set and every other property as it was. The \<open>searchText\<close> is the lower-cased title,
  description, track (empty if absent) and space-joined lower-cased speaker names (empty if
  there are none), joined by spaces in that order, and so contains the lower-cased title.
\<close>

theorem createSearchIndex_spec:
  assumes "list_all session_shape S"
  shows "\<exists>idx. createSearchIndex S = Inr idx
           \<and> length idx = length S
           \<and> (\<forall>i<length S.
                 idx ! i = JObj (obj_set (own_props (S ! i)) ''searchText''
                                   (JStr (spec_searchText (S ! i))))
               \<and> field (idx ! i) ''searchText'' = Some (JStr (spec_searchText (S ! i)))
               \<and> (\<forall>k. k \<noteq> ''searchText'' \<longrightarrow> field (idx ! i) k = field (S ! i) k)
               \<and> str_includes (spec_searchText (S ! i))
                    (map toLowerChar (str_field (S ! i) ''title'')))"
  using assms by (rule createSearchIndex_build)

theorem createSearchIndex_spec_witness:
  "\<exists>idx. createSearchIndex [session_A, session_B] = Inr idx
      \<and> length idx = 2
      \<and> field (idx ! 0) ''searchText'' = Some (JStr ''opening keynote welcome  '')
      \<and> field (idx ! 1) ''searchText'' = Some (JStr ''scaling rollups core ann lee bob'')
      \<and> field (idx ! 1) ''id'' = Some (JStr ''b2'')"
proof -
  have sh: "list_all session_shape [session_A, session_B]" by code_simp
  have ta: "spec_searchText session_A = ''opening keynote welcome  ''" by code_simp
  have tb: "spec_searchText session_B = ''scaling rollups core ann lee bob''" by code_simp
  have ib: "field session_B ''id'' = Some (JStr ''b2'')" by code_simp
  from createSearchIndex_spec [OF sh] obtain idx where
    idx: "createSearchIndex [session_A, session_B] = Inr idx" "length idx = length [session_A, session_B]"
    and all: "\<And>i. i < length [session_A, session_B] \<Longrightarrow>
        field (idx ! i) ''searchText'' = Some (JStr (spec_searchText ([session_A, session_B] ! i)))
        \<and> (\<forall>k. k \<noteq> ''searchText'' \<longrightarrow> field (idx ! i) k = field ([session_A, session_B] ! i) k)"
    by blast
  from all [of 0] have a: "field (idx ! 0) ''searchText'' = Some (JStr (spec_searchText session_A))"
    by simp
  from all [of 1] have b: "field (idx ! 1) ''searchText'' = Some (JStr (spec_searchText session_B))"
    "field (idx ! 1) ''id'' = field session_B ''id''"
    by simp_all
  from idx a b show ?thesis using ta tb ib by simp
qed

subsection \<open>Filter pipeline\<close>

text \<open>
  Claim C3. For every search index and every filter state, \<open>filterSessions\<close> yields the index
  narrowed by the search, day, track and room predicates in that order, each applied to the
  result of the one before; an empty search term and the value \<open>all\<close> make their stage the
  identity (the room selection is any primitive value, \<^verbatim>\<open>undefined\<close> included).
  The result is a subsequence of the index (relative order is kept), and with
  every field at its default it is the index itself.
\<close>

theorem filterSessions_pipeline:
  assumes "createSearchIndex S = Inr idx" and "is_primitive room"
  shows "filterSessions date label q day track room idx
           = Inr (filter (matches_room room) (filter (matches_track track)
                   (filter (matches_day date label day) (filter (matches_search q) idx))))
       \<and> subseq (filter (matches_room room) (filter (matches_track track)
                   (filter (matches_day date label day) (filter (matches_search q) idx)))) idx
       \<and> filter (matches_search []) idx = idx
       \<and> filter (matches_day date label ''all'') idx = idx
       \<and> filter (matches_track ''all'') idx = idx
       \<and> filter (matches_room (Some (JStr ''all''))) idx = idx
       \<and> filterSessions date label [] ''all'' ''all'' (Some (JStr ''all'')) idx = Inr idx"
proof -
  have ix: "\<And>s. s \<in> set idx \<Longrightarrow> indexed s"
    using assms(1) by (rule createSearchIndex_indexed)
  have "subseq (filter (matches_room room) (filter (matches_track track)
          (filter (matches_day date label day) (filter (matches_search q) idx)))) idx"
    by (intro subseq_filter_of subseq_filter_left)
  moreover have "filterSessions date label [] ''all'' ''all'' (Some (JStr ''all'')) idx = Inr idx"
    by (simp add: filterSessions_def search_stage_def day_stage_def track_stage_def room_stage_def
                  strict_eq_def)
  ultimately show ?thesis
    using filterSessions_indexed [OF ix]
    by (simp add: matches_search_def matches_day_def matches_track_def matches_room_def)
qed

theorem filterSessions_pipeline_witness:
  "createSearchIndex [session_A, session_B, session_C] = Inr sample_index
   \<and> length sample_index = 3
   \<and> filterSessions sample_date sample_label ''ROLL'' ''Monday, Nov 11'' ''Core'' (Some (JStr ''Main''))
        sample_index = Inr [sample_index ! 1]
   \<and> filterSessions sample_date sample_label [] ''all'' ''all'' (Some (JStr ''Side'')) sample_index
        = Inr [sample_index ! 2]
   \<and> filterSessions sample_date sample_label [] ''all'' ''all'' (Some (JStr ''all'')) sample_index
        = Inr sample_index"
proof -
  have c: "createSearchIndex [session_A, session_B, session_C] = Inr sample_index"
    by code_simp
  have l: "length sample_index = 3"
    by code_simp
  have f1: "filter (matches_room (Some (JStr ''Main''))) (filter (matches_track ''Core'')
             (filter (matches_day sample_date sample_label ''Monday, Nov 11'')
               (filter (matches_search ''ROLL'') sample_index))) = [sample_index ! 1]"
    by code_simp
  have f2: "filter (matches_room (Some (JStr ''Side''))) (filter (matches_track ''all'')
             (filter (matches_day sample_date sample_label ''all'')
               (filter (matches_search []) sample_index))) = [sample_index ! 2]"
    by code_simp
  have pr: "is_primitive (Some (JStr ''Main''))" "is_primitive (Some (JStr ''Side''))"
    by simp_all
  note p1 = filterSessions_pipeline [OF c pr(1), where date = sample_date and label = sample_label
            and q = "''ROLL''" and day = "''Monday, Nov 11''" and track = "''Core''"]
  note p2 = filterSessions_pipeline [OF c pr(2), where date = sample_date and label = sample_label
            and q = "[]" and day = "''all''" and track = "''all''"]
  have r1: "filterSessions sample_date sample_label ''ROLL'' ''Monday, Nov 11'' ''Core'' (Some (JStr ''Main''))
        sample_index = Inr [sample_index ! 1]"
    using p1 unfolding f1 by (rule conjunct1)
  have r2: "filterSessions sample_date sample_label [] ''all'' ''all'' (Some (JStr ''Side'')) sample_index
        = Inr [sample_index ! 2]"
    using p2 unfolding f2 by (rule conjunct1)
  have r3: "filterSessions sample_date sample_label [] ''all'' ''all'' (Some (JStr ''all'')) sample_index
        = Inr sample_index"
    using p1 by blast
  show ?thesis
    using c l r1 r2 r3 by blast
qed

subsection \<open>Grouping\<close>

text \<open>
  Claim C6. For every session list given to the grouping (none of its entries \<^verbatim>\<open>null\<close>) and
  the time \<open>now\<close> read when the groups are computed, \<open>groupedSessions\<close> returns, and its
  \<open>hasCurrentSession\<close> flag is true exactly when some session of the grouped input has
  \<open>slot_start \<le> now \<le> slot_end\<close>.
\<close>

theorem hasCurrentSession_iff_live:
  assumes "JNull \<notin> set (if v = ''schedule'' then f else a)"
  shows "\<exists>g. groupedSessions date label now v f a b
               = Inr (g, \<exists>s\<in>set (sessions_to_group v f a b). is_live date now s)"
  using groupedSessions_eval [OF assms] by blast

theorem hasCurrentSession_iff_live_witness:
  "(\<exists>g. groupedSessions sample_date sample_label 120 ''schedule''
            [session_A, session_B, session_C] [] [] = Inr (g, True))
   \<and> (\<exists>g. groupedSessions sample_date sample_label 300 ''schedule''
            [session_A, session_B, session_C] [] [] = Inr (g, False))
   \<and> (\<exists>g. groupedSessions sample_date sample_label 95 ''bookmarks''
            [] [session_A, session_B, session_C] [Some (JStr ''c3'')] = Inr (g, False))"
proof -
  have n1: "JNull \<notin> set (if ''schedule'' = ''schedule'' then [session_A, session_B, session_C] else [])"
    by code_simp
  have n2: "JNull \<notin> set (if ''bookmarks'' = ''schedule'' then [] else [session_A, session_B, session_C])"
    by code_simp
  have l1: "(\<exists>s\<in>set (sessions_to_group ''schedule'' [session_A, session_B, session_C] [] []).
               is_live sample_date 120 s) = True"
    by code_simp
  have l2: "(\<exists>s\<in>set (sessions_to_group ''schedule'' [session_A, session_B, session_C] [] []).
               is_live sample_date 300 s) = False"
    by code_simp
  have l3: "(\<exists>s\<in>set (sessions_to_group ''bookmarks'' [] [session_A, session_B, session_C]
                         [Some (JStr ''c3'')]).
               is_live sample_date 95 s) = False"
    by code_simp
  show ?thesis
    using hasCurrentSession_iff_live [OF n1, where date = sample_date and label = sample_label
             and now = 120 and b = "[]"]
          hasCurrentSession_iff_live [OF n1, where date = sample_date and label = sample_label
             and now = 300 and b = "[]"]
          hasCurrentSession_iff_live [OF n2, where date = sample_date and label = sample_label
             and now = 95 and b = "[Some (JStr ''c3'')]"]
    unfolding l1 l2 l3 by blast
qed

text \<open>
  Claim C5. For every session list given to the grouping whose start times are valid dates,
  each day bucket of the result holds the sessions of that day sorted ascending by
  \<open>slot_start\<close> (every earlier element starts no later than every later one, adjacent pairs
  included), and sessions with equal \<open>slot_start\<close> keep their relative order from the input.
\<close>

theorem day_buckets_sorted_stable:
  assumes nn: "JNull \<notin> set (if v = ''schedule'' then f else a)"
    and valid: "\<forall>s\<in>set (sessions_to_group v f a b). start_time date s \<noteq> None"
  shows "\<exists>g h. groupedSessions date label now v f a b = Inr (g, h)
           \<and> distinct (map fst g)
           \<and> set (map fst g) = day_label date label ` set (sessions_to_group v f a b)
           \<and> (\<forall>(d, xs)\<in>set g.
                 sorted_wrt (starts_le date) xs
               \<and> length xs = length (filter (\<lambda>s. day_label date label s = d)
                                       (sessions_to_group v f a b))
               \<and> (\<forall>t. filter (\<lambda>s. start_time date s = t) xs
                      = filter (\<lambda>s. start_time date s = t)
                          (filter (\<lambda>s. day_label date label s = d)
                             (sessions_to_group v f a b))))"
proof -
  let ?src = "sessions_to_group v f a b"
  let ?raw = "foldl (\<lambda>g s. push_group g (day_label date label s) s) [] ?src"
  let ?g = "map (\<lambda>g. (fst g, array_sort (compare_start date) (snd g))) ?raw"
  have inv: "distinct (map fst ?raw)"
    "set (map fst ?raw) = day_label date label ` set ?src"
    "\<And>d. bucket ?raw d = filter (\<lambda>s. day_label date label s = d) ?src"
    using foldl_push_group [of "[]" "day_label date label" ?src] by (simp_all add: bucket_def)
  have keys: "map fst ?g = map fst ?raw" by (simp add: comp_def)
  have "sorted_wrt (starts_le date) xs
        \<and> length xs = length (filter (\<lambda>s. day_label date label s = d) ?src)
        \<and> (\<forall>t. filter (\<lambda>s. start_time date s = t) xs
               = filter (\<lambda>s. start_time date s = t)
                   (filter (\<lambda>s. day_label date label s = d) ?src))"
    if "(d, xs) \<in> set ?g" for d xs
  proof -
    from that obtain ys where ys: "(d, ys) \<in> set ?raw" "xs = array_sort (compare_start date) ys"
      by auto
    from bucket_member [OF inv(1) ys(1)] inv(3)
    have eq: "ys = filter (\<lambda>s. day_label date label s = d) ?src" by simp
    with valid have v: "\<forall>y\<in>set ys. start_time date y \<noteq> None" by simp
    show ?thesis
      using array_sort_sorted [OF v] array_sort_stable [OF v] array_sort_length [OF v] ys(2) eq
      by simp
  qed
  then have "\<forall>(d, xs)\<in>set ?g.
                 sorted_wrt (starts_le date) xs
               \<and> length xs = length (filter (\<lambda>s. day_label date label s = d) ?src)
               \<and> (\<forall>t. filter (\<lambda>s. start_time date s = t) xs
                      = filter (\<lambda>s. start_time date s = t)
                          (filter (\<lambda>s. day_label date label s = d) ?src))"
    by blast
  with inv(1,2) keys groupedSessions_eval [OF nn, of date label now b]
  show ?thesis by (metis (no_types, lifting))
qed

theorem day_buckets_sorted_stable_witness:
  "groupedSessions sample_date sample_label 120 ''schedule''
      [session_A, session_B, session_C] [] []
     = Inr ([(''Monday, Nov 11'', [session_B, session_C, session_A])], True)
   \<and> sorted_wrt (starts_le sample_date) [session_B, session_C, session_A]
   \<and> filter (\<lambda>s. start_time sample_date s = Some 50) [session_B, session_C, session_A]
       = [session_B, session_C]"
proof -
  let ?src = "[session_A, session_B, session_C]"
  have n: "JNull \<notin> set (if ''schedule'' = ''schedule'' then ?src else [])"
    by code_simp
  have v: "\<forall>s\<in>set (sessions_to_group ''schedule'' ?src [] []). start_time sample_date s \<noteq> None"
    by code_simp
  have e: "groupedSessions sample_date sample_label 120 ''schedule'' ?src [] []
             = Inr ([(''Monday, Nov 11'', [session_B, session_C, session_A])], True)"
    by code_simp
  have r: "filter (\<lambda>s. start_time sample_date s = Some 50)
             (filter (\<lambda>s. day_label sample_date sample_label s = ''Monday, Nov 11'')
                (sessions_to_group ''schedule'' ?src [] [])) = [session_B, session_C]"
    by code_simp
  from day_buckets_sorted_stable [OF n v, where label = sample_label and now = 120]
  obtain g h where gh: "groupedSessions sample_date sample_label 120 ''schedule'' ?src [] [] = Inr (g, h)"
    and all: "\<forall>(d, xs)\<in>set g.
                 sorted_wrt (starts_le sample_date) xs
               \<and> length xs = length (filter (\<lambda>s. day_label sample_date sample_label s = d)
                                       (sessions_to_group ''schedule'' ?src [] []))
               \<and> (\<forall>t. filter (\<lambda>s. start_time sample_date s = t) xs
                      = filter (\<lambda>s. start_time sample_date s = t)
                          (filter (\<lambda>s. day_label sample_date sample_label s = d)
                             (sessions_to_group ''schedule'' ?src [] [])))"
    by blast
  from gh e have g: "g = [(''Monday, Nov 11'', [session_B, session_C, session_A])]"
    by simp
  from all have "sorted_wrt (starts_le sample_date) [session_B, session_C, session_A]
     \<and> filter (\<lambda>s. start_time sample_date s = Some 50) [session_B, session_C, session_A]
        = filter (\<lambda>s. start_time sample_date s = Some 50)
            (filter (\<lambda>s. day_label sample_date sample_label s = ''Monday, Nov 11'')
               (sessions_to_group ''schedule'' ?src [] []))"
    unfolding g by simp
  with e r show ?thesis by simp
qed

subsection \<open>Optional fields\<close>

text \<open>
  Sessions of the Session shape, in which \<open>track\<close>, \<open>slot_room\<close>, \<open>speakers\<close> and the resource
  links may each be missing, go through every operation. The index build returns and gives
  each session its search text, a missing track contributing the empty string and a missing
  speaker list nothing. The filter returns exactly the sessions that pass the four
  predicates; a session without a track passes the track stage only when no track is
  selected, and a session without a room passes the room stage when no room is selected or
  when the selection is \<^verbatim>\<open>undefined\<close>, and for no other selection. The grouping, in either
  view, returns, and its buckets hold every session of its input under the session's day.
\<close>

theorem optional_fields_default:
  assumes "list_all session_shape S" and "is_primitive room"
  shows "\<exists>idx out. createSearchIndex S = Inr idx \<and> length idx = length S
           \<and> filterSessions date label q day track room idx = Inr out
           \<and> out = filter (matches_room room) (filter (matches_track track)
                     (filter (matches_day date label day) (filter (matches_search q) idx)))
           \<and> (\<exists>g. groupedSessions date label now v out S b
                       = Inr (g, \<exists>s\<in>set (sessions_to_group v out S b). is_live date now s)
                  \<and> fst ` set g = day_label date label ` set (sessions_to_group v out S b)
                  \<and> (\<forall>(d, xs)\<in>set g.
                        set xs = {s \<in> set (sessions_to_group v out S b).
                                    day_label date label s = d}))
           \<and> (\<forall>i<length S.
                 field (idx ! i) ''searchText'' = Some (JStr (spec_searchText (S ! i)))
               \<and> (\<forall>k. k \<noteq> ''searchText'' \<longrightarrow> field (idx ! i) k = field (S ! i) k)
               \<and> (absent (field (S ! i) ''track'') \<longrightarrow>
                    spec_searchText (S ! i)
                      = map toLowerChar (str_field (S ! i) ''title'') @ '' '' @
                        map toLowerChar (str_field (S ! i) ''description'') @ '' '' @
                        [] @ '' '' @
                        join '' '' (map (\<lambda>p. map toLowerChar (str_field p ''name''))
                                      (speaker_list (S ! i))))
               \<and> (absent (field (S ! i) ''speakers'') \<longrightarrow>
                    spec_searchText (S ! i)
                      = map toLowerChar (str_field (S ! i) ''title'') @ '' '' @
                        map toLowerChar (str_field (S ! i) ''description'') @ '' '' @
                        map toLowerChar (str_field (S ! i) ''track'') @ '' '' @ [])
               \<and> (absent (field (S ! i) ''track'') \<longrightarrow>
                    matches_track track (idx ! i) = (track = ''all''))
               \<and> (absent (field (S ! i) ''slot_room'') \<longrightarrow>
                    matches_room room (idx ! i) = (room = Some (JStr ''all'') \<or> room = None)))"
proof -
  from createSearchIndex_build [OF assms(1)] obtain idx where
    c: "createSearchIndex S = Inr idx" and len: "length idx = length S"
    and el: "\<And>i. i < length S \<Longrightarrow>
               field (idx ! i) ''searchText'' = Some (JStr (spec_searchText (S ! i)))
             \<and> (\<forall>k. k \<noteq> ''searchText'' \<longrightarrow> field (idx ! i) k = field (S ! i) k)"
    by blast
  let ?out = "filter (matches_room room) (filter (matches_track track)
               (filter (matches_day date label day) (filter (matches_search q) idx)))"
  have f: "filterSessions date label q day track room idx = Inr ?out"
    using filterSessions_indexed [OF createSearchIndex_indexed [OF c]] by blast
  have "JNull \<notin> set idx"
    using createSearchIndex_indexed [OF c] indexed_nonnull by blast
  moreover have "JNull \<notin> set S"
    using assms(1) session_shape_nonnull by (auto simp: list_all_iff)
  ultimately have nn: "JNull \<notin> set (if v = ''schedule'' then ?out else S)"
    by auto
  note g = groupedSessions_buckets [OF nn, of date label now b]
  have per: "field (idx ! i) ''searchText'' = Some (JStr (spec_searchText (S ! i)))
           \<and> (\<forall>k. k \<noteq> ''searchText'' \<longrightarrow> field (idx ! i) k = field (S ! i) k)
           \<and> (absent (field (S ! i) ''track'') \<longrightarrow>
                spec_searchText (S ! i)
                  = map toLowerChar (str_field (S ! i) ''title'') @ '' '' @
                    map toLowerChar (str_field (S ! i) ''description'') @ '' '' @
                    [] @ '' '' @
                    join '' '' (map (\<lambda>p. map toLowerChar (str_field p ''name''))
                                  (speaker_list (S ! i))))
           \<and> (absent (field (S ! i) ''speakers'') \<longrightarrow>
                spec_searchText (S ! i)
                  = map toLowerChar (str_field (S ! i) ''title'') @ '' '' @
                    map toLowerChar (str_field (S ! i) ''description'') @ '' '' @
                    map toLowerChar (str_field (S ! i) ''track'') @ '' '' @ [])
           \<and> (absent (field (S ! i) ''track'') \<longrightarrow>
                matches_track track (idx ! i) = (track = ''all''))
           \<and> (absent (field (S ! i) ''slot_room'') \<longrightarrow>
                matches_room room (idx ! i) = (room = Some (JStr ''all'') \<or> room = None))"
    if i: "i < length S" for i
  proof -
    from el [OF i] have t: "field (idx ! i) ''searchText'' = Some (JStr (spec_searchText (S ! i)))"
      and o: "\<forall>k. k \<noteq> ''searchText'' \<longrightarrow> field (idx ! i) k = field (S ! i) k"
      by simp_all
    from o have tr: "field (idx ! i) ''track'' = field (S ! i) ''track''"
      and ro: "field (idx ! i) ''slot_room'' = field (S ! i) ''slot_room''"
      by simp_all
    show ?thesis
      using t o absent_track_match [of "idx ! i" track] absent_room_match [of "idx ! i" room]
      unfolding tr ro
      by (auto simp: spec_searchText_def absent_str_field absent_speaker_list)
  qed
  show ?thesis
    using c len f g per by blast
qed

theorem optional_fields_default_witness:
  "\<exists>idx out. createSearchIndex [session_A, session_C] = Inr idx
     \<and> filterSessions sample_date sample_label [] ''all'' ''all'' (Some (JStr ''Side'')) idx = Inr out
     \<and> field (idx ! 0) ''searchText'' = Some (JStr ''opening keynote welcome  '')
     \<and> matches_room (Some (JStr ''Side'')) (idx ! 0) = False
     \<and> out = [sample_index ! 2]
     \<and> (\<exists>g. groupedSessions sample_date sample_label 120 ''bookmarks'' out
                 [session_A, session_C] [Some (JStr ''a1'')] = Inr (g, True))"
proof -
  let ?S = "[session_A, session_C]"
  have sh: "list_all session_shape ?S" by code_simp
  have a2: "absent (field session_A ''speakers'')" by code_simp
  have a3: "absent (field session_A ''slot_room'')" by code_simp
  have tx: "map toLowerChar (str_field session_A ''title'') @ '' '' @
            map toLowerChar (str_field session_A ''description'') @ '' '' @
            map toLowerChar (str_field session_A ''track'') @ '' '' @ []
            = ''opening keynote welcome  ''"
    by code_simp
  have c0: "createSearchIndex ?S = Inr [sample_index ! 0, sample_index ! 2]"
    by code_simp
  have o0: "filter (matches_room (Some (JStr ''Side''))) (filter (matches_track ''all'')
             (filter (matches_day sample_date sample_label ''all'')
               (filter (matches_search []) [sample_index ! 0, sample_index ! 2])))
            = [sample_index ! 2]"
    by code_simp
  have lv: "(\<exists>s\<in>set (sessions_to_group ''bookmarks'' [sample_index ! 2] ?S [Some (JStr ''a1'')]).
               is_live sample_date 120 s) = True"
    by code_simp
  have pr: "is_primitive (Some (JStr ''Side''))" by simp
  from optional_fields_default [OF sh pr, where date = sample_date and label = sample_label
         and q = "[]" and day = "''all''" and track = "''all''"
         and now = 120 and b = "[Some (JStr ''a1'')]" and v = "''bookmarks''"]
  show ?thesis
  proof (elim exE conjE)
    fix idx out g
    assume c: "createSearchIndex ?S = Inr idx"
      and f: "filterSessions sample_date sample_label [] ''all'' ''all'' (Some (JStr ''Side'')) idx
                = Inr out"
      and o: "out = filter (matches_room (Some (JStr ''Side''))) (filter (matches_track ''all'')
                    (filter (matches_day sample_date sample_label ''all'')
                      (filter (matches_search []) idx)))"
      and g: "groupedSessions sample_date sample_label 120 ''bookmarks'' out ?S [Some (JStr ''a1'')]
                 = Inr (g, \<exists>s\<in>set (sessions_to_group ''bookmarks'' out ?S [Some (JStr ''a1'')]).
                              is_live sample_date 120 s)"
      and el: "\<forall>i<length ?S.
         field (idx ! i) ''searchText'' = Some (JStr (spec_searchText (?S ! i)))
       \<and> (\<forall>k. k \<noteq> ''searchText'' \<longrightarrow> field (idx ! i) k = field (?S ! i) k)
       \<and> (absent (field (?S ! i) ''track'') \<longrightarrow>
            spec_searchText (?S ! i)
              = map toLowerChar (str_field (?S ! i) ''title'') @ '' '' @
                map toLowerChar (str_field (?S ! i) ''description'') @ '' '' @
                [] @ '' '' @
                join '' '' (map (\<lambda>p. map toLowerChar (str_field p ''name''))
                              (speaker_list (?S ! i))))
       \<and> (absent (field (?S ! i) ''speakers'') \<longrightarrow>
            spec_searchText (?S ! i)
              = map toLowerChar (str_field (?S ! i) ''title'') @ '' '' @
                map toLowerChar (str_field (?S ! i) ''description'') @ '' '' @
                map toLowerChar (str_field (?S ! i) ''track'') @ '' '' @ [])
       \<and> (absent (field (?S ! i) ''track'') \<longrightarrow>
            matches_track ''all'' (idx ! i) = (''all'' = ''all''))
       \<and> (absent (field (?S ! i) ''slot_room'') \<longrightarrow>
            matches_room (Some (JStr ''Side'')) (idx ! i)
              = (Some (JStr ''Side'') = Some (JStr ''all'') \<or> Some (JStr ''Side'') = None))"
    have l0: "(0::nat) < length ?S" by simp
    have s0: "?S ! 0 = session_A" by simp
    note e0 = el [THEN spec [where x = 0], THEN mp, OF l0, unfolded s0]
    note t0 = e0 [THEN conjunct1]
    note t1 = e0 [THEN conjunct2, THEN conjunct2, THEN conjunct2, THEN conjunct1, THEN mp, OF a2]
    note r = e0 [THEN conjunct2, THEN conjunct2, THEN conjunct2, THEN conjunct2, THEN conjunct2,
                 THEN mp, OF a3]
    have t: "field (idx ! 0) ''searchText'' = Some (JStr ''opening keynote welcome  '')"
      unfolding t0 t1 tx ..
    from r have r0: "matches_room (Some (JStr ''Side'')) (idx ! 0) = False" by simp
    from c c0 have idx: "idx = [sample_index ! 0, sample_index ! 2]" by simp
    have out: "out = [sample_index ! 2]"
      unfolding o idx o0 ..
    from g have g': "groupedSessions sample_date sample_label 120 ''bookmarks'' out ?S
                          [Some (JStr ''a1'')] = Inr (g, True)"
      unfolding out lv .
    from c f t r0 out g' show ?thesis by blast
  qed
qed

text \<open>
  Claim C9. The claim asks that a session missing \<open>slot_room\<close> get no room match. The room
  button is rendered on every card, so on the card of a session without a room it calls
  \<open>handleRoomClick\<close> with \<^verbatim>\<open>undefined\<close>; with that selection \<open>filterSessions\<close> enters the room stage
  and keeps exactly the sessions without a room. At the sample sessions, of which only the
  first has no room: the click leaves \<open>selectedRoom\<close> undefined, and the filter then returns the
  first indexed session alone.
\<close>

theorem room_button_on_roomless_card:
  "absent (field session_A ''slot_room'')
   \<and> selectedRoom (room_button_click session_A sample_state) = None
   \<and> createSearchIndex [session_A, session_B, session_C] = Inr sample_index
   \<and> absent (field (sample_index ! 0) ''slot_room'')
   \<and> filterSessions sample_date sample_label [] ''all'' ''all''
        (selectedRoom (room_button_click session_A sample_state)) sample_index
       = Inr [sample_index ! 0]"
proof -
  have a: "absent (field session_A ''slot_room'')" by code_simp
  have r: "selectedRoom (room_button_click session_A sample_state) = None"
    by (simp add: room_button_click_def handleRoomClick_def session_A_def)
  have c: "createSearchIndex [session_A, session_B, session_C] = Inr sample_index" by code_simp
  have b: "absent (field (sample_index ! 0) ''slot_room'')" by code_simp
  have f: "filterSessions sample_date sample_label [] ''all'' ''all'' None sample_index
       = Inr [sample_index ! 0]" by code_simp
  show ?thesis unfolding r using a c b f by simp
qed

subsection \<open>Change detection\<close>

text \<open>
  Claim C1, as the specification states it, asks that two sessions with the same canonical
  structural content but different key order be classified as unchanged. The comparison is
  made on the \<^verbatim>\<open>JSON.stringify\<close> texts, which follow key order: the same session with
  \<open>title\<close> and \<open>id\<close> swapped is deep-equal to the old one and is counted as modified.
\<close>

theorem key_order_counterexample:
  "deep_equal session_A session_A_reordered
   \<and> stringify session_A \<noteq> stringify session_A_reordered
   \<and> existing_session [session_A] session_A_reordered = Some session_A
   \<and> classify [session_A] session_A_reordered = Inr Modified
   \<and> diff_sessions [session_A] [session_A_reordered]
       = Inr \<lparr>added = 0, modified = 1, unchanged = 0\<rparr>"
  by code_simp

text \<open>
  Claim C1, amended. For every old list of session objects and every new session object
  whose id is found in the old list, the diff classifies the session as modified exactly
  when its \<^verbatim>\<open>JSON.stringify\<close> text differs from that of the first old session with that id,
  and as unchanged otherwise. The serialization is injective, so this is exactly when the two
  differ as ordered structures (some key, value, sequence position or key order differs):
  every session whose deep structural content differs is classified as modified, and a
  session identical to the old one, key order included, as unchanged.
\<close>

theorem classify_by_serialization:
  assumes old: "list_all is_object old" and new: "is_object session"
    and ex: "existing_session old session = Some e"
  shows "classify old session = Inr (if stringify e = stringify session then Unchanged else Modified)
       \<and> (stringify e = stringify session) = (e = session)
       \<and> (classify old session = Inr Modified) = (e \<noteq> session)
       \<and> (classify old session = Inr Unchanged) = (e = session)
       \<and> (deep_equal e session \<or> classify old session = Inr Modified)"
proof -
  have nn: "JNull \<notin> set old" "session \<noteq> JNull"
    using old new is_object_truthy by (auto simp: list_all_iff)
  from ex have "e \<in> set old" unfolding existing_session_def by (rule find_in_set)
  with old have t: "truthy (Some e)" using is_object_truthy by (auto simp: list_all_iff)
  have c: "classify old session
           = Inr (if stringify e = stringify session then Unchanged else Modified)"
    unfolding classify_def find_r_same_id [OF nn] ex using t by simp
  have inj: "(stringify e = stringify session) = (e = session)"
    by (rule stringify_inj)
  have "deep_equal e session \<or> e \<noteq> session"
    using deep_equal_refl by blast
  with c inj show ?thesis by auto
qed

theorem classify_by_serialization_witness:
  "existing_session [session_B, session_A] session_A_edited = Some session_A
   \<and> classify [session_B, session_A] session_A_edited = Inr Modified
   \<and> classify [session_B, session_A] session_A = Inr Unchanged
   \<and> classify [session_B, session_A] session_A_reordered = Inr Modified"
proof -
  have o: "list_all is_object [session_B, session_A]" by code_simp
  have n: "is_object session_A_edited" "is_object session_A" "is_object session_A_reordered"
    by code_simp+
  have e: "existing_session [session_B, session_A] session_A_edited = Some session_A"
    "existing_session [session_B, session_A] session_A = Some session_A"
    "existing_session [session_B, session_A] session_A_reordered = Some session_A"
    by code_simp+
  have d: "session_A \<noteq> session_A_edited" "session_A \<noteq> session_A_reordered"
    by (simp_all add: session_A_def session_A_edited_def session_A_reordered_def)
  from classify_by_serialization [OF o n(1) e(1)] d(1)
  have "classify [session_B, session_A] session_A_edited = Inr Modified" by blast
  moreover from classify_by_serialization [OF o n(2) e(2)]
  have "classify [session_B, session_A] session_A = Inr Unchanged" by blast
  moreover from classify_by_serialization [OF o n(3) e(3)] d(2)
  have "classify [session_B, session_A] session_A_reordered = Inr Modified" by blast
  ultimately show ?thesis using e(1) by blast
qed

end
